theory Spec2Isabelle
  imports Main "HOL-Library.Multiset"
begin

section \<open>Errors raised by the program\<close>

text \<open>
  The Python exceptions that the modelled code can raise.  Every operation that can raise
  returns a pair: the outcome (\<open>Inl\<close> the exception, \<open>Inr\<close> the value returned) and the
  state of the object at that moment, since an exception leaves the object as it was when
  raised.
\<close>

datatype error = IndexError | KeyError | ValueError | TypeError | AttributeError | ZeroDivisionError

section \<open>MinPriorityQueue.py\<close>

text \<open>
  The three private attributes of the class.  \<open>size\<close> is kept as its own field, as
  in the source, although every method keeps it equal to the length of \<open>elements\<close>
  (lemma \<open>wf_q\<close> below).  Index reads that the source guards by \<open>size\<close> are written
  with \<open>!\<close>; they are in range whenever that class invariant holds.
\<close>

record 'a MinPriorityQueue =
  elements :: "(int \<times> 'a) list"
  size_q :: nat
  mapping :: "'a \<rightharpoonup> nat"

definition leftchild :: "nat \<Rightarrow> nat" where
  "leftchild i = 2 * i + 1"

definition rightchild :: "nat \<Rightarrow> nat" where
  "rightchild i = 2 * i + 2"

text \<open>
  \<open>parent i = (i - 1) // 2\<close>.  On indices \<open>i > 0\<close> this is the natural-number
  quotient; the only call with \<open>i - 1 < 0\<close> is in \<open>build_min_heap\<close>, written out there.
\<close>

definition parent :: "nat \<Rightarrow> nat" where
  "parent i = (i - 1) div 2"

text \<open>
  The swap shared by \<open>min_heapify\<close> and the loop of \<open>decrease_key\<close>: exchange the
  entries at \<open>i\<close> and \<open>j\<close>, then \<open>mapping[elements[i][1]] = i\<close> and
  \<open>mapping[elements[j][1]] = j\<close>, in this order.
\<close>

definition swap_entries :: "'a MinPriorityQueue \<Rightarrow> nat \<Rightarrow> nat \<Rightarrow> 'a MinPriorityQueue" where
  "swap_entries q i j =
     (let es = (elements q)[i := elements q ! j, j := elements q ! i];
          m1 = (mapping q)(snd (es ! i) \<mapsto> i);
          m2 = m1(snd (es ! j) \<mapsto> j)
      in q\<lparr>elements := es, mapping := m2\<rparr>)"

definition smallest_of :: "'a MinPriorityQueue \<Rightarrow> nat \<Rightarrow> nat" where
  "smallest_of q i =
     (let lc = leftchild i; rc = rightchild i;
          s1 = (if lc < size_q q \<and> fst (elements q ! lc) < fst (elements q ! i) then lc else i)
      in if rc < size_q q \<and> fst (elements q ! rc) < fst (elements q ! s1) then rc else s1)"

function min_heapify :: "'a MinPriorityQueue \<Rightarrow> nat \<Rightarrow> 'a MinPriorityQueue" where
  "min_heapify q i =
     (let smallest = smallest_of q i
      in if smallest \<noteq> i then min_heapify (swap_entries q i smallest) smallest else q)"
  by pat_completeness auto
termination
proof (relation "measure (\<lambda>(q, i). size_q q - i)")
  show "wf (measure (\<lambda>(q :: 'a MinPriorityQueue, i). size_q q - i))"
    by simp
next
  fix q :: "'a MinPriorityQueue" and i x
  assume x: "x = smallest_of q i" and ne: "x \<noteq> i"
  have "i < x \<and> x < size_q q"
    using x ne by (auto simp: smallest_of_def leftchild_def rightchild_def Let_def split: if_splits)
  moreover have "size_q (swap_entries q i x) = size_q q"
    by (simp add: swap_entries_def Let_def)
  ultimately show "((swap_entries q i x, x), (q, i)) \<in> measure (\<lambda>(q, i). size_q q - i)"
    by auto
qed

text \<open>
  \<open>for i in range(parent(size - 1), -1, -1): min_heapify(i)\<close>.  \<open>build_loop q n\<close>
  runs the indices \<open>n - 1\<close> down to \<open>0\<close>.  For \<open>size \<le> 1\<close> Python's
  \<open>parent(size - 1)\<close> is \<open>-1\<close> and the range is empty.
\<close>

fun build_loop :: "'a MinPriorityQueue \<Rightarrow> nat \<Rightarrow> 'a MinPriorityQueue" where
  "build_loop q 0 = q"
| "build_loop q (Suc i) = build_loop (min_heapify q i) i"

definition build_min_heap :: "'a MinPriorityQueue \<Rightarrow> 'a MinPriorityQueue" where
  "build_min_heap q =
     (if size_q q \<le> 1 then q else build_loop q (Suc (parent (size_q q - 1))))"

text \<open>The loop of \<open>__init__\<close> over the arguments, then \<open>build_min_heap\<close>.\<close>

fun init_loop :: "'a MinPriorityQueue \<Rightarrow> (int \<times> 'a) list \<Rightarrow> 'a MinPriorityQueue" where
  "init_loop q [] = q"
| "init_loop q (key_value # args) =
     init_loop (q\<lparr>elements := elements q @ [key_value],
                  size_q := size_q q + 1,
                  mapping := (mapping q)(snd key_value \<mapsto> (size_q q + 1) - 1)\<rparr>) args"

definition MinPriorityQueue_init :: "(int \<times> 'a) list \<Rightarrow> 'a MinPriorityQueue" where
  "MinPriorityQueue_init args =
     build_min_heap (init_loop \<lparr>elements = [], size_q = 0, mapping = Map.empty\<rparr> args)"

definition extract_min :: "'a MinPriorityQueue \<Rightarrow> (error + 'a) \<times> 'a MinPriorityQueue" where
  "extract_min q =
     (if size_q q = 0 then (Inl IndexError, q)
      else
        let smallest = elements q ! 0;
            q1 = q\<lparr>elements := butlast ((elements q)[0 := elements q ! (size_q q - 1)]),
                   size_q := size_q q - 1\<rparr>
        in case mapping q1 (snd smallest) of
             None \<Rightarrow> (Inl KeyError, q1)
           | Some _ \<Rightarrow>
               let q2 = q1\<lparr>mapping := (mapping q1)(snd smallest := None)\<rparr>
               in if size_q q2 > 0
                  then (Inr (snd smallest),
                        min_heapify (q2\<lparr>mapping := (mapping q2)(snd (elements q2 ! 0) \<mapsto> 0)\<rparr>) 0)
                  else (Inr (snd smallest), q2))"

text \<open>The \<open>while\<close> loop of \<open>decrease_key\<close>, from position \<open>i\<close>.\<close>

function decrease_key_loop :: "'a MinPriorityQueue \<Rightarrow> nat \<Rightarrow> 'a MinPriorityQueue" where
  "decrease_key_loop q i =
     (if i > 0 \<and> fst (elements q ! parent i) > fst (elements q ! i)
      then decrease_key_loop (swap_entries q i (parent i)) (parent i)
      else q)"
  by pat_completeness auto
termination
  by (relation "measure (\<lambda>(q, i). i)") (auto simp: parent_def)

definition decrease_key :: "'a MinPriorityQueue \<Rightarrow> 'a \<Rightarrow> int \<Rightarrow> (error + unit) \<times> 'a MinPriorityQueue" where
  "decrease_key q element new_key =
     (case mapping q element of
        None \<Rightarrow> (Inl KeyError, q)
      | Some i \<Rightarrow>
          if new_key \<le> fst (elements q ! i)
          then (Inr (), decrease_key_loop (q\<lparr>elements := (elements q)[i := (new_key, snd (elements q ! i))]\<rparr>) i)
          else (Inl ValueError, q))"

definition insert_q :: "'a MinPriorityQueue \<Rightarrow> int \<Rightarrow> 'a \<Rightarrow> (error + unit) \<times> 'a MinPriorityQueue" where
  "insert_q q new_key new_element =
     decrease_key (q\<lparr>elements := elements q @ [(new_key, new_element)],
                     size_q := size_q q + 1,
                     mapping := (mapping q)(new_element \<mapsto> (size_q q + 1) - 1)\<rparr>)
                  new_element new_key"

text \<open>\<open>i = mapping.get(element, -1); return i >= 0\<close>\<close>

definition element_exists :: "'a MinPriorityQueue \<Rightarrow> 'a \<Rightarrow> bool" where
  "element_exists q element = ((case mapping q element of None \<Rightarrow> - 1 | Some i \<Rightarrow> int i) \<ge> 0)"

definition get_key :: "'a MinPriorityQueue \<Rightarrow> 'a \<Rightarrow> error + int" where
  "get_key q element =
     (case mapping q element of
        None \<Rightarrow> Inl KeyError
      | Some i \<Rightarrow> Inr (fst (elements q ! i)))"

declare min_heapify.simps [simp del] decrease_key_loop.simps [simp del]

section \<open>Grid.py\<close>

subsection \<open>Node\<close>

datatype node_state =
  UNDISCOVERED | OPENED | CLOSED | START | TARGET | OBSTACLE | SOLUTION | NO_SOL_TARGET

text \<open>
  A \<open>Node\<close> object is identified by its place in \<open>Grid.nodes\<close>: the pair (row, column).
  The grid holds the store from these addresses to the mutable attributes of the node;
  \<open>prev\<close> is a reference to another node, hence an address.  The attributes fixed by the
  constructor (\<open>row\<close>, \<open>col\<close>, \<open>pos\<close>, the cell size) are functions of the address and
  of the grid (\<open>get_row\<close>, \<open>get_col\<close>, \<open>get_pos\<close> below).
\<close>

type_synonym pos = "nat \<times> nat"

record Node =
  prev :: "pos option"
  state :: node_state
  h_cost :: "int option"
  g_cost :: "int option"

definition get_row :: "pos \<Rightarrow> nat" where
  "get_row p = fst p"

definition get_col :: "pos \<Rightarrow> nat" where
  "get_col p = snd p"

definition make_open :: "Node \<Rightarrow> Node" where
  "make_open nd = (if state nd \<noteq> START \<and> state nd \<noteq> TARGET then nd\<lparr>state := OPENED\<rparr> else nd)"

definition close :: "Node \<Rightarrow> Node" where
  "close nd = (if state nd \<noteq> START \<and> state nd \<noteq> TARGET then nd\<lparr>state := CLOSED\<rparr> else nd)"

definition is_obstacle :: "Node \<Rightarrow> bool" where
  "is_obstacle nd \<longleftrightarrow> state nd = OBSTACLE"

definition add_to_solution :: "Node \<Rightarrow> Node" where
  "add_to_solution nd = nd\<lparr>state := SOLUTION\<rparr>"

definition set_start :: "Node \<Rightarrow> Node" where
  "set_start nd = nd\<lparr>state := START\<rparr>"

definition set_target :: "Node \<Rightarrow> Node" where
  "set_target nd = nd\<lparr>state := TARGET\<rparr>"

definition set_no_sol_target :: "Node \<Rightarrow> Node" where
  "set_no_sol_target nd = nd\<lparr>state := NO_SOL_TARGET\<rparr>"

definition make_undiscovered :: "Node \<Rightarrow> Node" where
  "make_undiscovered nd = nd\<lparr>state := UNDISCOVERED\<rparr>"

definition set_h_cost :: "Node \<Rightarrow> int \<Rightarrow> Node" where
  "set_h_cost nd h = nd\<lparr>h_cost := Some h\<rparr>"

text \<open>\<open>relax_g_cost\<close> returns whether the cost was assigned, and the node.\<close>

definition relax_g_cost :: "Node \<Rightarrow> int \<Rightarrow> bool \<times> Node" where
  "relax_g_cost nd cost =
     (case g_cost nd of
        None \<Rightarrow> (True, nd\<lparr>g_cost := Some cost\<rparr>)
      | Some g \<Rightarrow> if cost < g then (True, nd\<lparr>g_cost := Some cost\<rparr>) else (False, nd))"

text \<open>\<open>h_cost + g_cost\<close>; adding \<open>None\<close> raises \<open>TypeError\<close>.\<close>

definition get_f_cost :: "Node \<Rightarrow> error + int" where
  "get_f_cost nd =
     (case h_cost nd of
        None \<Rightarrow> Inl TypeError
      | Some h \<Rightarrow> (case g_cost nd of None \<Rightarrow> Inl TypeError | Some g \<Rightarrow> Inr (h + g)))"

text \<open>\<open>set_prev\<close> is only ever called with a node, so its type check never raises.\<close>

definition set_prev :: "Node \<Rightarrow> pos \<Rightarrow> Node" where
  "set_prev nd prev_node = nd\<lparr>prev := Some prev_node\<rparr>"

subsection \<open>Grid\<close>

record Grid =
  columns :: nat
  rows :: nat
  width :: nat
  height :: nat
  nodes :: "pos \<Rightarrow> Node"
  start :: "pos option"
  target :: "pos option"
  solved :: bool

definition VERT_HORZ_COST :: int where
  "VERT_HORZ_COST = 10"

definition DIAG_COST :: int where
  "DIAG_COST = 14"

text \<open>Writing the attributes of one node back into the store.\<close>

definition update_node :: "Grid \<Rightarrow> pos \<Rightarrow> Node \<Rightarrow> Grid" where
  "update_node g p nd = g\<lparr>nodes := (nodes g)(p := nd)\<rparr>"

text \<open>
  \<open>Node.pos = (width * col, height * row)\<close>, where \<open>create_grid\<close> passes the cell size
  \<open>Grid.width // columns\<close> and \<open>Grid.height // rows\<close>.
\<close>

definition get_pos :: "Grid \<Rightarrow> pos \<Rightarrow> nat \<times> nat" where
  "get_pos g p = ((width g div columns g) * get_col p, (height g div rows g) * get_row p)"

text \<open>
  The first lines of both neighbour methods: the row and column recomputed from the pixel
  position.  A zero divisor raises \<open>ZeroDivisionError\<close>.
\<close>

definition row_col_of :: "Grid \<Rightarrow> pos \<Rightarrow> error + (nat \<times> nat)" where
  "row_col_of g node =
     (case get_pos g node of (x, y) \<Rightarrow>
        if columns g = 0 \<or> width g div columns g = 0 then Inl ZeroDivisionError
        else let col = x div (width g div columns g) in
          if rows g = 0 \<or> height g div rows g = 0 then Inl ZeroDivisionError
          else let row = y div (height g div rows g) in Inr (row, col))"

text \<open>
  The \<open>for i, j in ...\<close> loop of the neighbour methods.  The guard excludes negative
  indices; an index past the end of \<open>nodes\<close> or of a row raises \<open>IndexError\<close>, which the
  loop body catches and ignores.
\<close>

fun neighbours_loop :: "Grid \<Rightarrow> nat \<Rightarrow> nat \<Rightarrow> (int \<times> int) list \<Rightarrow> pos list" where
  "neighbours_loop g row col [] = []"
| "neighbours_loop g row col ((i, j) # offsets) =
     (if int row + i \<ge> 0 \<and> int col + j \<ge> 0
      then (if nat (int row + i) < rows g \<and> nat (int col + j) < columns g
            then (if \<not> is_obstacle (nodes g (nat (int row + i), nat (int col + j)))
                  then [(nat (int row + i), nat (int col + j))] else [])
            else [])
      else []) @ neighbours_loop g row col offsets"

definition get_vert_horz_neighbours :: "Grid \<Rightarrow> pos \<Rightarrow> error + pos list" where
  "get_vert_horz_neighbours g node =
     (case row_col_of g node of
        Inl e \<Rightarrow> Inl e
      | Inr (row, col) \<Rightarrow> Inr (neighbours_loop g row col [(- 1, 0), (1, 0), (0, - 1), (0, 1)]))"

definition get_diag_neighbors :: "Grid \<Rightarrow> pos \<Rightarrow> error + pos list" where
  "get_diag_neighbors g node =
     (case row_col_of g node of
        Inl e \<Rightarrow> Inl e
      | Inr (row, col) \<Rightarrow> Inr (neighbours_loop g row col [(- 1, - 1), (1, - 1), (- 1, 1), (1, 1)]))"

text \<open>
  \<open>for row in nodes: for node in row\<close>: the addresses of all nodes, row by row, and the
  distance that the body of \<open>calculate_all_h_costs\<close> computes for one node.
\<close>

definition all_nodes :: "Grid \<Rightarrow> pos list" where
  "all_nodes g = concat (map (\<lambda>r. map (\<lambda>c. (r, c)) [0..<columns g]) [0..<rows g])"

definition h_dist :: "pos \<Rightarrow> pos \<Rightarrow> int" where
  "h_dist node t =
     (let vdist = \<bar>int (get_row node) - int (get_row t)\<bar>;
          hdist = \<bar>int (get_col node) - int (get_col t)\<bar>;
          diag = min vdist hdist;
          updown = max vdist hdist - min vdist hdist
      in diag * DIAG_COST + updown * VERT_HORZ_COST)"

definition calculate_all_h_costs :: "Grid \<Rightarrow> (error + unit) \<times> Grid" where
  "calculate_all_h_costs g =
     (case target g of
        None \<Rightarrow> (if all_nodes g = [] then (Inr (), g) else (Inl AttributeError, g))
      | Some t \<Rightarrow>
          (Inr (), foldl (\<lambda>g' node. update_node g' node (set_h_cost (nodes g' node) (h_dist node t)))
                         g (all_nodes g)))"

subsection \<open>The search\<close>

text \<open>
  The state of one run of \<open>find_path\<close> or \<open>find_path_nonvisual\<close>: the grid and the two
  local collections.  The two methods differ in the calls \<open>make_open\<close> and \<open>close\<close> on
  nodes (and in the delay, event handling and drawing of the visual one, which touch no
  attribute of the grid); the flag \<open>vis\<close> selects them.
\<close>

record search =
  grid :: Grid
  opened :: "pos MinPriorityQueue"
  closed :: "pos set"

text \<open>The body of \<open>for node in vh_neighbours\<close> and of \<open>for node in d_neighbours\<close>.\<close>

definition relax_neighbour :: "bool \<Rightarrow> pos \<Rightarrow> int \<Rightarrow> search \<Rightarrow> pos \<Rightarrow> (error + unit) \<times> search" where
  "relax_neighbour vis current cost s node =
     (case g_cost (nodes (grid s) current) of
        None \<Rightarrow> (Inl TypeError, s)
      | Some gc \<Rightarrow>
          (case relax_g_cost (nodes (grid s) node) (gc + cost) of
             (False, nd) \<Rightarrow> (Inr (), s)
           | (True, nd) \<Rightarrow>
               let s1 = s\<lparr>grid := update_node (grid s) node (set_prev nd current)\<rparr> in
               (case get_f_cost (nodes (grid s1) node) of
                  Inl e \<Rightarrow> (Inl e, s1)
                | Inr f \<Rightarrow>
                    if element_exists (opened s1) node
                    then (case decrease_key (opened s1) node f of
                            (r, q) \<Rightarrow> (r, s1\<lparr>opened := q\<rparr>))
                    else (case insert_q (opened s1) f node of
                            (Inl e, q) \<Rightarrow> (Inl e, s1\<lparr>opened := q\<rparr>)
                          | (Inr u, q) \<Rightarrow>
                              (Inr (), s1\<lparr>opened := q,
                                          grid := (if vis
                                                   then update_node (grid s1) node (make_open (nodes (grid s1) node))
                                                   else grid s1)\<rparr>)))))"

fun relax_all :: "bool \<Rightarrow> pos \<Rightarrow> int \<Rightarrow> search \<Rightarrow> pos list \<Rightarrow> (error + unit) \<times> search" where
  "relax_all vis current cost s [] = (Inr (), s)"
| "relax_all vis current cost s (node # ns) =
     (case relax_neighbour vis current cost s node of
        (Inl e, s') \<Rightarrow> (Inl e, s')
      | (Inr u, s') \<Rightarrow> relax_all vis current cost s' ns)"

text \<open>The \<open>else\<close> branch of the loop: both neighbour lists are computed, then relaxed in turn.\<close>

definition expand :: "bool \<Rightarrow> search \<Rightarrow> pos \<Rightarrow> (error + unit) \<times> search" where
  "expand vis s current =
     (case get_vert_horz_neighbours (grid s) current of
        Inl e \<Rightarrow> (Inl e, s)
      | Inr vh_neighbours \<Rightarrow>
          (case get_diag_neighbors (grid s) current of
             Inl e \<Rightarrow> (Inl e, s)
           | Inr d_neighbours \<Rightarrow>
               (case relax_all vis current VERT_HORZ_COST s vh_neighbours of
                  (Inl e, s1) \<Rightarrow> (Inl e, s1)
                | (Inr u, s1) \<Rightarrow> relax_all vis current DIAG_COST s1 d_neighbours)))"

text \<open>\<open>closed.add(current)\<close> and, in the visual method, \<open>current.close()\<close>.\<close>

definition finish_current :: "bool \<Rightarrow> pos \<Rightarrow> search \<Rightarrow> search" where
  "finish_current vis current s =
     s\<lparr>closed := insert current (closed s),
       grid := (if vis then update_node (grid s) current (close (nodes (grid s) current)) else grid s)\<rparr>"

text \<open>
  The \<open>while not path_found\<close> loop.  An exception ends it with the state reached; the
  result \<open>None\<close> stands for a loop that never ends.
\<close>

partial_function (option) find_path_loop :: "bool \<Rightarrow> search \<Rightarrow> ((error + unit) \<times> search) option" where
  "find_path_loop vis s =
     (case extract_min (opened s) of
        (Inl e, q) \<Rightarrow> Some (Inl e, s\<lparr>opened := q\<rparr>)
      | (Inr current, q) \<Rightarrow>
          if target (grid s) = Some current
          then Some (Inr (), finish_current vis current
                               (s\<lparr>opened := q, grid := (grid s)\<lparr>solved := True\<rparr>\<rparr>))
          else (case expand vis (s\<lparr>opened := q\<rparr>) current of
                  (Inl e, s2) \<Rightarrow> Some (Inl e, s2)
                | (Inr u, s2) \<Rightarrow> find_path_loop vis (finish_current vis current s2)))"

declare find_path_loop.simps [code]

text \<open>
  The lines before the loop: a new queue and closed set, the heuristic of every node, the
  start relaxed to \<open>0\<close> and inserted with its f-cost.
\<close>

definition search_init :: "Grid \<Rightarrow> (error + unit) \<times> search" where
  "search_init g =
     (case calculate_all_h_costs g of
        (Inl e, g1) \<Rightarrow> (Inl e, \<lparr>grid = g1, opened = MinPriorityQueue_init [], closed = {}\<rparr>)
      | (Inr u, g1) \<Rightarrow>
          (case start g1 of
             None \<Rightarrow> (Inl AttributeError, \<lparr>grid = g1, opened = MinPriorityQueue_init [], closed = {}\<rparr>)
           | Some st \<Rightarrow>
               let g2 = update_node g1 st (snd (relax_g_cost (nodes g1 st) 0)) in
               (case get_f_cost (nodes g2 st) of
                  Inl e \<Rightarrow> (Inl e, \<lparr>grid = g2, opened = MinPriorityQueue_init [], closed = {}\<rparr>)
                | Inr f \<Rightarrow>
                    (case insert_q (MinPriorityQueue_init []) f st of
                       (r, q) \<Rightarrow> (r, \<lparr>grid = g2, opened = q, closed = {}\<rparr>)))))"

definition find_path_run :: "bool \<Rightarrow> Grid \<Rightarrow> ((error + unit) \<times> search) option" where
  "find_path_run vis g =
     (case search_init g of
        (Inl e, s) \<Rightarrow> Some (Inl e, s)
      | (Inr u, s) \<Rightarrow> find_path_loop vis s)"

definition find_path :: "Grid \<Rightarrow> ((error + unit) \<times> Grid) option" where
  "find_path g = map_option (\<lambda>(r, s). (r, grid s)) (find_path_run True g)"

definition find_path_nonvisual :: "Grid \<Rightarrow> ((error + unit) \<times> Grid) option" where
  "find_path_nonvisual g = map_option (\<lambda>(r, s). (r, grid s)) (find_path_run False g)"

text \<open>
  The loop of \<open>print_path\<close>.  \<open>current\<close> is a reference that may be \<open>None\<close>; calling
  \<open>add_to_solution\<close> on \<open>None\<close> raises \<open>AttributeError\<close>.
\<close>

partial_function (option) print_path_loop :: "Grid \<Rightarrow> pos option \<Rightarrow> ((error + unit) \<times> Grid) option" where
  "print_path_loop g current =
     (if current = start g then Some (Inr (), g)
      else (case current of
              None \<Rightarrow> Some (Inl AttributeError, g)
            | Some c \<Rightarrow>
                print_path_loop (update_node g c (add_to_solution (nodes g c)))
                                (prev (nodes (update_node g c (add_to_solution (nodes g c))) c))))"

declare print_path_loop.simps [code]

definition print_path :: "Grid \<Rightarrow> ((error + unit) \<times> Grid) option" where
  "print_path g =
     (if solved g
      then (case target g of
              None \<Rightarrow> Some (Inl AttributeError, g)
            | Some t \<Rightarrow> print_path_loop g (prev (nodes g t)))
      else Some (Inr (), g))"

definition print_no_solution :: "Grid \<Rightarrow> (error + unit) \<times> Grid" where
  "print_no_solution g =
     (case target g of
        None \<Rightarrow> (Inl AttributeError, g)
      | Some t \<Rightarrow> (Inr (), update_node g t (set_no_sol_target (nodes g t))))"

text \<open>
  \<open>solve\<close>: only \<open>IndexError\<close> is caught; any other exception of the search leaves
  \<open>solve\<close> as it is.
\<close>

definition solve :: "Grid \<Rightarrow> bool \<Rightarrow> ((error + unit) \<times> Grid) option" where
  "solve g show_steps =
     (if start g = None \<or> target g = None then Some (Inl AttributeError, g)
      else (case (if show_steps then find_path g else find_path_nonvisual g) of
              None \<Rightarrow> None
            | Some (Inl e, g') \<Rightarrow>
                if e = IndexError then Some (print_no_solution g') else Some (Inl e, g')
            | Some (Inr u, g') \<Rightarrow> print_path g'))"

text \<open>
  Python list indexing \<open>xs[i]\<close> on a list of length \<open>n\<close>: a negative index counts from
  the end, and an index out of range raises \<open>IndexError\<close>.  \<open>node_at g i j\<close> is
  \<open>nodes[i][j]\<close> on the rectangular list of rows that \<open>create_grid\<close> builds.
\<close>

definition list_index :: "nat \<Rightarrow> int \<Rightarrow> nat option" where
  "list_index n i =
     (if 0 \<le> i \<and> i < int n then Some (nat i)
      else if i < 0 \<and> - i \<le> int n then Some (nat (int n + i))
      else None)"

definition node_at :: "Grid \<Rightarrow> int \<Rightarrow> int \<Rightarrow> error + pos" where
  "node_at g i j =
     (case list_index (rows g) i of
        None \<Rightarrow> Inl IndexError
      | Some r \<Rightarrow> (case list_index (columns g) j of
                     None \<Rightarrow> Inl IndexError
                   | Some c \<Rightarrow> Inr (r, c)))"

definition DEFAULT_START_ROW :: int where
  "DEFAULT_START_ROW = 9"

definition DEFAULT_START_COL :: int where
  "DEFAULT_START_COL = 4"

definition DEFAULT_TARGET_ROW :: int where
  "DEFAULT_TARGET_ROW = 9"

definition DEFAULT_TARGET_COL :: int where
  "DEFAULT_TARGET_COL = - 5"

text \<open>
  \<open>set_start_node(node=None)\<close> and \<open>set_target_node(node=None)\<close>.  Without an argument
  the node is read from \<open>nodes\<close> at the default row and column, which raises
  \<open>IndexError\<close> on a grid that is too small.  Each refuses the node that is currently the
  other endpoint.
\<close>

definition set_start_node :: "Grid \<Rightarrow> pos option \<Rightarrow> (error + unit) \<times> Grid" where
  "set_start_node g node =
     (case (case node of
              None \<Rightarrow> node_at g DEFAULT_START_ROW DEFAULT_START_COL
            | Some n \<Rightarrow> Inr n) of
        Inl e \<Rightarrow> (Inl e, g)
      | Inr n \<Rightarrow>
          if target g \<noteq> Some n
          then (let g1 = (case start g of
                            None \<Rightarrow> g
                          | Some old \<Rightarrow> update_node g old (make_undiscovered (nodes g old)))
                in (Inr (), (update_node g1 n (set_start (nodes g1 n)))\<lparr>start := Some n\<rparr>))
          else (Inr (), g))"

definition set_target_node :: "Grid \<Rightarrow> pos option \<Rightarrow> (error + unit) \<times> Grid" where
  "set_target_node g node =
     (case (case node of
              None \<Rightarrow> node_at g DEFAULT_TARGET_ROW DEFAULT_TARGET_COL
            | Some n \<Rightarrow> Inr n) of
        Inl e \<Rightarrow> (Inl e, g)
      | Inr n \<Rightarrow>
          if start g \<noteq> Some n
          then (let g1 = (case target g of
                            None \<Rightarrow> g
                          | Some old \<Rightarrow> update_node g old (make_undiscovered (nodes g old)))
                in (Inr (), (update_node g1 n (set_target (nodes g1 n)))\<lparr>target := Some n\<rparr>))
          else (Inr (), g))"

text \<open>
  \<open>create_grid\<close>, as \<open>__init__\<close> calls it, before a start or target is set: the cell
  size is computed by integer division, which raises \<open>ZeroDivisionError\<close> for no columns
  or no rows, and every node is new, with no costs and no predecessor.
\<close>

definition new_node :: Node where
  "new_node = \<lparr>prev = None, state = UNDISCOVERED, h_cost = None, g_cost = None\<rparr>"

definition create_grid :: "Grid \<Rightarrow> error + Grid" where
  "create_grid g =
     (if columns g = 0 then Inl ZeroDivisionError
      else if rows g = 0 then Inl ZeroDivisionError
      else Inr (g\<lparr>solved := False, nodes := (\<lambda>p. new_node)\<rparr>))"

text \<open>
  \<open>Grid.__init__(surface, rect, columns, rows)\<close>, from the width and height of \<open>rect\<close>:
  the attributes are set, then \<open>create_grid()\<close>, \<open>set_start_node()\<close> and
  \<open>set_target_node()\<close> run.  An exception leaves no grid.
\<close>

definition Grid_init :: "nat \<Rightarrow> nat \<Rightarrow> nat \<Rightarrow> nat \<Rightarrow> error + Grid" where
  "Grid_init rect_width rect_height cols rws =
     (case create_grid \<lparr>columns = cols, rows = rws, width = rect_width, height = rect_height,
                        nodes = (\<lambda>p. new_node), start = None, target = None, solved = False\<rparr> of
        Inl e \<Rightarrow> Inl e
      | Inr g1 \<Rightarrow>
          (case set_start_node g1 None of
             (Inl e, g2) \<Rightarrow> Inl e
           | (Inr u, g2) \<Rightarrow>
               (case set_target_node g2 None of
                  (Inl e, g3) \<Rightarrow> Inl e
                | (Inr u, g3) \<Rightarrow> Inr (g3\<lparr>solved := False\<rparr>))))"




section \<open>Specification of the queue\<close>

text \<open>
  The class invariant on the representation: \<open>size\<close> is the length of \<open>elements\<close>,
  no identity is stored twice, and \<open>mapping\<close> sends exactly the stored identities to
  their positions.
\<close>

definition wf_q :: "'a MinPriorityQueue \<Rightarrow> bool" where
  "wf_q q \<longleftrightarrow>
     size_q q = length (elements q) \<and> distinct (map snd (elements q)) \<and>
     (\<forall>e i. mapping q e = Some i \<longleftrightarrow> i < length (elements q) \<and> snd (elements q ! i) = e)"

text \<open>
  Heap order restricted to the edges whose parent index is at least \<open>k\<close>;
  \<open>heap_from 0\<close> is the min-heap order.  \<open>heap_except k i\<close> is what \<open>min_heapify\<close>
  expects at \<open>i\<close>: only the edges from \<open>i\<close> to its children may be out of order, and
  the children are no smaller than the parent of \<open>i\<close>.  \<open>heap_up i\<close> is what the loop of
  \<open>decrease_key\<close> expects at \<open>i\<close>: only the edge into \<open>i\<close> may be out of order.
\<close>

definition heap_from :: "nat \<Rightarrow> (int \<times> 'a) list \<Rightarrow> bool" where
  "heap_from k es \<longleftrightarrow>
     (\<forall>j. 0 < j \<and> j < length es \<and> k \<le> parent j \<longrightarrow> fst (es ! parent j) \<le> fst (es ! j))"

definition heap_except :: "nat \<Rightarrow> nat \<Rightarrow> (int \<times> 'a) list \<Rightarrow> bool" where
  "heap_except k i es \<longleftrightarrow>
     (\<forall>j. 0 < j \<and> j < length es \<and> k \<le> parent j \<and> parent j \<noteq> i \<longrightarrow>
          fst (es ! parent j) \<le> fst (es ! j)) \<and>
     (0 < i \<and> k \<le> parent i \<longrightarrow>
        (\<forall>j. 0 < j \<and> j < length es \<and> parent j = i \<longrightarrow> fst (es ! parent i) \<le> fst (es ! j)))"


definition heap_up :: "nat \<Rightarrow> (int \<times> 'a) list \<Rightarrow> bool" where
  "heap_up i es \<longleftrightarrow>
     (\<forall>j. 0 < j \<and> j < length es \<and> j \<noteq> i \<longrightarrow> fst (es ! parent j) \<le> fst (es ! j)) \<and>
     (0 < i \<longrightarrow>
        (\<forall>j. 0 < j \<and> j < length es \<and> parent j = i \<longrightarrow> fst (es ! parent i) \<le> fst (es ! j)))"


definition pq_inv :: "'a MinPriorityQueue \<Rightarrow> bool" where
  "pq_inv q \<longleftrightarrow> wf_q q \<and> heap_from 0 (elements q)"

text \<open>
  A client that empties the queue: it calls \<open>extract_min\<close> until the call raises, and
  returns the identities in the order received, with the exception that ended the loop.
\<close>

function drain :: "'a MinPriorityQueue \<Rightarrow> 'a list \<times> error" where
  "drain q =
     (case extract_min q of
        (Inl err, q') \<Rightarrow> ([], err)
      | (Inr e, q') \<Rightarrow> (case drain q' of (es, err) \<Rightarrow> (e # es, err)))"
  by pat_completeness auto
termination
proof (relation "measure size_q")
  show "wf (measure size_q)" by simp
next
  fix q :: "'a MinPriorityQueue" and x y e
  assume "(x, y) = extract_min q" and "x = Inr e"
  then have ex: "extract_min q = (Inr e, y)" by simp
  have sz: "size_q (min_heapify h i) = size_q h" for h :: "'a MinPriorityQueue" and i
  proof (induction h i rule: min_heapify.induct)
    case (1 h i)
    show ?case
      using "1.IH"[OF refl]
      by (subst min_heapify.simps) (simp add: Let_def swap_entries_def)
  qed
  have "size_q q \<noteq> 0 \<and> size_q y = size_q q - 1"
    using ex unfolding extract_min_def Let_def
    by (auto simp: sz split: if_splits option.splits)
  then show "(y, q) \<in> measure size_q" by simp
qed

declare drain.simps [simp del]

text \<open>
  Sequences of the three mutating operations.  \<open>op_pre\<close> is the precondition of one
  operation (a new identity for \<open>insert\<close>, a non-empty queue for \<open>extract_min\<close>, a
  present identity and a key not above the current one for \<open>decrease_key\<close>);
  \<open>ops_pre\<close> asks it of every operation in the state in which it runs.  \<open>run_ops\<close>
  stops at the first exception.
\<close>

datatype 'a queue_op = Insert int 'a | ExtractMin | DecreaseKey 'a int

fun apply_op :: "'a MinPriorityQueue \<Rightarrow> 'a queue_op \<Rightarrow> (error + unit) \<times> 'a MinPriorityQueue" where
  "apply_op q (Insert k e) = insert_q q k e"
| "apply_op q ExtractMin =
     (case extract_min q of (Inl err, q') \<Rightarrow> (Inl err, q') | (Inr e, q') \<Rightarrow> (Inr (), q'))"
| "apply_op q (DecreaseKey e k) = decrease_key q e k"

fun op_pre :: "'a MinPriorityQueue \<Rightarrow> 'a queue_op \<Rightarrow> bool" where
  "op_pre q (Insert k e) = (\<not> element_exists q e)"
| "op_pre q ExtractMin = (size_q q > 0)"
| "op_pre q (DecreaseKey e k) = (case get_key q e of Inl err \<Rightarrow> False | Inr k0 \<Rightarrow> k \<le> k0)"

fun run_ops :: "'a MinPriorityQueue \<Rightarrow> 'a queue_op list \<Rightarrow> (error + unit) \<times> 'a MinPriorityQueue" where
  "run_ops q [] = (Inr (), q)"
| "run_ops q (x # xs) =
     (case apply_op q x of (Inl err, q') \<Rightarrow> (Inl err, q') | (Inr u, q') \<Rightarrow> run_ops q' xs)"

fun ops_pre :: "'a MinPriorityQueue \<Rightarrow> 'a queue_op list \<Rightarrow> bool" where
  "ops_pre q [] = True"
| "ops_pre q (x # xs) = (op_pre q x \<and> ops_pre (snd (apply_op q x)) xs)"

text \<open>The min-heap order as the queue sees it: every non-root index against its parent.\<close>

definition heap_order :: "'a MinPriorityQueue \<Rightarrow> bool" where
  "heap_order q \<longleftrightarrow>
     (\<forall>i \<in> {1..<size_q q}. fst (elements q ! parent i) \<le> fst (elements q ! i))"

text \<open>The key that a batch of (key, identity) pairs gives to an identity.\<close>

definition key_of :: "(int \<times> 'a) list \<Rightarrow> 'a \<Rightarrow> int option" where
  "key_of args e = map_of (map (\<lambda>(k, x). (x, k)) args) e"


section \<open>Specification of the grid\<close>

text \<open>
  \<open>in_grid\<close>: the address of a node of the grid.  \<open>cell_ok\<close>: the cells have a positive
  width and height in pixels, which \<open>create_grid\<close> computes by integer division.
  \<open>orthogonal\<close> and \<open>diagonal\<close>: the two kinds of adjacent addresses.
\<close>

definition in_grid :: "Grid \<Rightarrow> pos \<Rightarrow> bool" where
  "in_grid g p \<longleftrightarrow> fst p < rows g \<and> snd p < columns g"

definition cell_ok :: "Grid \<Rightarrow> bool" where
  "cell_ok g \<longleftrightarrow> 0 < width g div columns g \<and> 0 < height g div rows g"

definition orthogonal :: "pos \<Rightarrow> pos \<Rightarrow> bool" where
  "orthogonal p q \<longleftrightarrow>
     (fst p = fst q \<and> \<bar>int (snd p) - int (snd q)\<bar> = 1) \<or>
     (snd p = snd q \<and> \<bar>int (fst p) - int (fst q)\<bar> = 1)"

definition diagonal :: "pos \<Rightarrow> pos \<Rightarrow> bool" where
  "diagonal p q \<longleftrightarrow> \<bar>int (fst p) - int (fst q)\<bar> = 1 \<and> \<bar>int (snd p) - int (snd q)\<bar> = 1"

text \<open>The g-cost of a node after \<open>relax_g_cost(0)\<close>, from its g-cost before.\<close>

definition relaxed_zero :: "int option \<Rightarrow> int" where
  "relaxed_zero g = (case g of None \<Rightarrow> 0 | Some x \<Rightarrow> min x 0)"

text \<open>
  The predecessor links followed by \<open>print_path\<close>: \<open>prev_chain g current path\<close> holds
  when \<open>path\<close> lists the nodes from \<open>current\<close> along \<open>prev\<close> up to, and without, the
  start node.  \<open>mark_solution\<close> sets the state of these nodes to \<open>SOLUTION\<close>.
\<close>

inductive prev_chain :: "Grid \<Rightarrow> pos option \<Rightarrow> pos list \<Rightarrow> bool" for g :: Grid where
  at_start: "current = start g \<Longrightarrow> prev_chain g current []"
| link: "current = Some c \<Longrightarrow> current \<noteq> start g \<Longrightarrow> prev_chain g (prev (nodes g c)) path \<Longrightarrow>
         prev_chain g current (c # path)"

definition mark_solution :: "Grid \<Rightarrow> pos list \<Rightarrow> Grid" where
  "mark_solution g path = foldl (\<lambda>g' c. update_node g' c (add_to_solution (nodes g' c))) g path"

text \<open>
  The two setters keep the endpoints apart: no node is both start and target.
\<close>

definition endpoints_distinct :: "Grid \<Rightarrow> bool" where
  "endpoints_distinct g \<longleftrightarrow> \<not> (\<exists>p. start g = Some p \<and> target g = Some p)"


text \<open>
  The smallest grid that \<open>Grid.__init__\<close> builds: ten rows and five columns of cells of
  10 by 10 pixels.  The default start is \<open>nodes[9][4]\<close> and the default target
  \<open>nodes[9][-5]\<close>, which is \<open>nodes[9][0]\<close> here.
\<close>

definition grid_5x10 :: Grid where
  "grid_5x10 = projr (Grid_init 50 100 5 10)"
section \<open>Specification of the search\<close>

text \<open>
  The identities stored in a queue; the test \<open>relax_g_cost\<close> makes on a candidate cost;
  and the cost of the move from \<open>u\<close> to \<open>v\<close> as the two loops over the neighbour lists
  see it: \<open>v\<close> is in \<open>vh_neighbours\<close> (cost \<open>VERT_HORZ_COST\<close>), in \<open>d_neighbours\<close>
  (cost \<open>DIAG_COST\<close>) or in neither.
\<close>

definition ids :: "'a MinPriorityQueue \<Rightarrow> 'a set" where
  "ids q = snd ` set (elements q)"

definition improves :: "int \<Rightarrow> int option \<Rightarrow> bool" where
  "improves cand old \<longleftrightarrow> (case old of None \<Rightarrow> True | Some x \<Rightarrow> cand < x)"

definition nbr_cost :: "Grid \<Rightarrow> pos \<Rightarrow> pos \<Rightarrow> int option" where
  "nbr_cost g u v =
     (if in_grid g v \<and> \<not> is_obstacle (nodes g v)
      then (if orthogonal u v then Some VERT_HORZ_COST
            else if diagonal u v then Some DIAG_COST else None)
      else None)"

text \<open>
  The net effect on one node of relaxing the neighbours of \<open>cur\<close>, whose g-cost is
  \<open>gc\<close>: \<open>mc\<close> is the cost of the move to the node, if it is a neighbour, and \<open>inq\<close>
  tells whether the node was in the queue before.  \<open>relaxed vis cur gc M s s'\<close> describes the
  state \<open>s'\<close> reached from \<open>s\<close> when the nodes \<open>v\<close> with \<open>M v = Some c\<close> have been
  relaxed with the cost \<open>gc + c\<close>: every node, and every entry of the queue, is given.
  \<open>keys_ok\<close>: every key in the queue is the f-cost of its node.
\<close>

definition relax_node :: "bool \<Rightarrow> pos \<Rightarrow> int \<Rightarrow> int option \<Rightarrow> bool \<Rightarrow> Node \<Rightarrow> Node" where
  "relax_node vis cur gc mc inq nd =
     (case mc of
        None \<Rightarrow> nd
      | Some c \<Rightarrow>
          if improves (gc + c) (g_cost nd)
          then (if vis \<and> \<not> inq then make_open (set_prev (nd\<lparr>g_cost := Some (gc + c)\<rparr>) cur)
                else set_prev (nd\<lparr>g_cost := Some (gc + c)\<rparr>) cur)
          else nd)"

definition improved :: "(pos \<Rightarrow> int option) \<Rightarrow> int \<Rightarrow> search \<Rightarrow> pos \<Rightarrow> bool" where
  "improved M gc s v \<longleftrightarrow>
     (case M v of None \<Rightarrow> False | Some c \<Rightarrow> improves (gc + c) (g_cost (nodes (grid s) v)))"

definition relaxed :: "bool \<Rightarrow> pos \<Rightarrow> int \<Rightarrow> (pos \<Rightarrow> int option) \<Rightarrow> search \<Rightarrow> search \<Rightarrow> bool" where
  "relaxed vis cur gc M s s' \<longleftrightarrow>
     columns (grid s') = columns (grid s) \<and> rows (grid s') = rows (grid s) \<and>
     width (grid s') = width (grid s) \<and> height (grid s') = height (grid s) \<and>
     start (grid s') = start (grid s) \<and> target (grid s') = target (grid s) \<and>
     solved (grid s') = solved (grid s) \<and> closed s' = closed s \<and> pq_inv (opened s') \<and>
     (\<forall>v. nodes (grid s') v =
            relax_node vis cur gc (M v) (v \<in> ids (opened s)) (nodes (grid s) v)) \<and>
     (\<forall>k v. (k, v) \<in> set (elements (opened s')) \<longleftrightarrow>
        (if improved M gc s v
         then get_f_cost (nodes (grid s') v) = Inr k
         else (k, v) \<in> set (elements (opened s))))"


text \<open>
  The states in which the \<open>while\<close> loop of \<open>find_path\<close> (\<open>vis\<close>) or
  \<open>find_path_nonvisual\<close> tests its condition during a run on the grid \<open>g\<close>: the state
  after the lines before the loop, and the state after each iteration that extracts a node
  other than the target and relaxes its neighbours without an exception.  These are the
  arguments of \<open>find_path_loop\<close> in the run.  \<open>loop_inv\<close> is the invariant of the loop
  that holds on every grid: the heuristic of every node is set, the queue satisfies its
  class invariant and holds nodes of the grid under their f-costs.
\<close>

inductive loop_state :: "bool \<Rightarrow> Grid \<Rightarrow> search \<Rightarrow> bool" for vis :: bool and g :: Grid where
  init: "search_init g = (Inr (), s) \<Longrightarrow> loop_state vis g s"
| iter: "loop_state vis g s \<Longrightarrow> extract_min (opened s) = (Inr cur, q) \<Longrightarrow>
         target (grid s) \<noteq> Some cur \<Longrightarrow>
         expand vis (s\<lparr>opened := q\<rparr>) cur = (Inr (), s2) \<Longrightarrow>
         loop_state vis g (finish_current vis cur s2)"





text \<open>
  The movement-cost model of the grid.  \<open>path_cost g st u x\<close>: some sequence of moves leads
  from \<open>st\<close> to \<open>u\<close> at the total cost \<open>x\<close>; a move enters a node of the grid that is no
  obstacle and costs 10 to an orthogonally and 14 to a diagonally adjacent node.
  \<open>shortest_cost\<close>: \<open>x\<close> is the least such cost.  \<open>reachable\<close>: there is such a sequence.
  \<open>fresh\<close>: no node of the grid has a g-cost, as after \<open>create_grid\<close>.
\<close>

inductive path_cost :: "Grid \<Rightarrow> pos \<Rightarrow> pos \<Rightarrow> int \<Rightarrow> bool" for g :: Grid and st :: pos where
  path_start: "path_cost g st st 0"
| path_step: "path_cost g st u x \<Longrightarrow> nbr_cost g u v = Some c \<Longrightarrow> path_cost g st v (x + c)"



definition fresh :: "Grid \<Rightarrow> bool" where
  "fresh g \<longleftrightarrow> (\<forall>p \<in> set (all_nodes g). g_cost (nodes g p) = None)"




lemma size_q_swap_entries: "size_q (swap_entries q i j) = size_q q"
  by (simp add: swap_entries_def Let_def)


lemma elements_swap_entries:
  "elements (swap_entries q i j) = (elements q)[i := elements q ! j, j := elements q ! i]"
  by (simp add: swap_entries_def Let_def)

lemma mset_swap_entries:
  "i < length (elements q) \<Longrightarrow> j < length (elements q) \<Longrightarrow>
   mset (elements (swap_entries q i j)) = mset (elements q)"
  by (simp add: elements_swap_entries mset_swap)

lemma wf_q_swap_entries:
  assumes "wf_q q" "i < size_q q" "j < size_q q"
  shows "wf_q (swap_entries q i j)"
proof -
  let ?es = "elements q"
  let ?es' = "elements (swap_entries q i j)"
  have n: "size_q q = length ?es" and d: "distinct (map snd ?es)"
    and m: "\<And>e k. mapping q e = Some k \<longleftrightarrow> k < length ?es \<and> snd (?es ! k) = e"
    using assms(1) by (auto simp: wf_q_def)
  have i: "i < length ?es" and j: "j < length ?es" using assms n by auto
  have len: "length ?es' = length ?es" by (simp add: elements_swap_entries)
  have "mset (map snd ?es') = mset (map snd ?es)"
    using mset_swap_entries[OF i j] by (metis mset_map)
  then have d': "distinct (map snd ?es')"
    using d by (metis mset_eq_imp_distinct_iff)
  have inj: "\<And>a b. a < length ?es \<Longrightarrow> b < length ?es \<Longrightarrow> snd (?es ! a) = snd (?es ! b) \<Longrightarrow> a = b"
    using d by (metis distinct_conv_nth length_map nth_map)
  have nth': "\<And>k. k < length ?es \<Longrightarrow> ?es' ! k = (if k = j then ?es ! i else if k = i then ?es ! j else ?es ! k)"
    using i j by (simp add: elements_swap_entries nth_list_update)
  have map': "mapping (swap_entries q i j) = ((mapping q)(snd (?es' ! i) \<mapsto> i))(snd (?es' ! j) \<mapsto> j)"
    by (simp add: swap_entries_def Let_def)
  have "mapping (swap_entries q i j) e = Some k \<longleftrightarrow> k < length ?es' \<and> snd (?es' ! k) = e" for e k
  proof (cases "k < length ?es")
    case False
    have "mapping q e \<noteq> Some k" using m False by simp
    then show ?thesis
      unfolding map' len using False i j by (auto simp: nth')
  next
    case True
    have a: "snd (?es ! k) = snd (?es ! i) \<longleftrightarrow> k = i" using inj[OF True i] by auto
    have b: "snd (?es ! k) = snd (?es ! j) \<longleftrightarrow> k = j" using inj[OF True j] by auto
    have c: "snd (?es ! i) = snd (?es ! j) \<longleftrightarrow> i = j" using inj[OF i j] by auto
    have e1: "mapping q e = Some k \<longleftrightarrow> snd (?es ! k) = e" using m True by simp
    show ?thesis
      unfolding map' len using True i j a b c e1
      by (auto simp: nth')
  qed
  then show ?thesis
    using d' len n by (simp add: wf_q_def size_q_swap_entries)
qed


lemma parent_eq_iff: "0 < j \<Longrightarrow> parent j = i \<longleftrightarrow> j = leftchild i \<or> j = rightchild i"
  by (auto simp: parent_def leftchild_def rightchild_def)

lemma parent_less: "0 < j \<Longrightarrow> parent j < j"
  by (auto simp: parent_def)

lemma smallest_of_neq:
  assumes "size_q q = length (elements q)" "smallest_of q i \<noteq> i"
  shows "smallest_of q i < length (elements q)" "parent (smallest_of q i) = i" "0 < smallest_of q i"
    "fst (elements q ! smallest_of q i) < fst (elements q ! i)"
    "\<And>j. 0 < j \<Longrightarrow> j < length (elements q) \<Longrightarrow> parent j = i \<Longrightarrow>
       fst (elements q ! smallest_of q i) \<le> fst (elements q ! j)"
    "i < smallest_of q i"
  using assms
  by (auto simp: smallest_of_def Let_def parent_eq_iff split: if_splits)
     (auto simp: leftchild_def rightchild_def parent_def)

lemma smallest_of_eq:
  assumes "size_q q = length (elements q)" "smallest_of q i = i"
    "0 < j" "j < length (elements q)" "parent j = i"
  shows "fst (elements q ! i) \<le> fst (elements q ! j)"
  using assms
  by (auto simp: smallest_of_def Let_def parent_eq_iff split: if_splits)

lemma heap_except_swap:
  assumes n: "size_q q = length (elements q)" and ne: "smallest_of q i \<noteq> i"
    and ki: "k \<le> i" and he: "heap_except k i (elements q)"
  shows "heap_except k (smallest_of q i) (elements (swap_entries q i (smallest_of q i)))"
proof -
  let ?s = "smallest_of q i"
  let ?es = "elements q"
  let ?es' = "elements (swap_entries q i ?s)"
  note sm = smallest_of_neq[OF n ne]
  have i: "i < length ?es" using sm(1,2,3) parent_less[of ?s] by simp
  have nth': "\<And>x. x < length ?es \<Longrightarrow>
      ?es' ! x = (if x = ?s then ?es ! i else if x = i then ?es ! ?s else ?es ! x)"
    using i sm(1) by (simp add: elements_swap_entries nth_list_update)
  have len: "length ?es' = length ?es" by (simp add: elements_swap_entries)
  have A: "fst (?es' ! parent j) \<le> fst (?es' ! j)"
    if j: "0 < j" "j < length ?es" "k \<le> parent j" "parent j \<noteq> ?s" for j
  proof -
    have pj: "parent j < length ?es" using parent_less[OF j(1)] j(2) by simp
    show ?thesis
    proof (cases "parent j = i")
      case True
      then show ?thesis
        using sm(4) sm(5)[OF j(1,2) True] j pj i nth' by (auto simp: nth')
    next
      case False
      have js: "j \<noteq> ?s" using False sm(2) by auto
      show ?thesis
      proof (cases "j = i")
        case True
        have "0 < i \<and> k \<le> parent i" using j True by simp
        then have "fst (?es ! parent i) \<le> fst (?es ! ?s)"
          using he sm(1,2,3) by (auto simp: heap_except_def)
        then show ?thesis using True False j pj i ne by (simp add: nth')
      next
        case ji: False
        have "fst (?es ! parent j) \<le> fst (?es ! j)"
          using he j False by (auto simp: heap_except_def)
        then show ?thesis using ji js False j pj by (simp add: nth')
      qed
    qed
  qed
  have B: "fst (?es' ! parent ?s) \<le> fst (?es' ! j)"
    if j: "0 < j" "j < length ?es" "parent j = ?s" for j
  proof -
    have "i < ?s" using sm(6) .
    then have "k \<le> parent j" "parent j \<noteq> i" using j ki by auto
    then have "fst (?es ! ?s) \<le> fst (?es ! j)"
      using he j by (auto simp: heap_except_def)
    moreover have "j \<noteq> ?s" "j \<noteq> i" using j parent_less[of j] \<open>i < ?s\<close> by auto
    ultimately show ?thesis using sm(1,2) i j ne by (simp add: nth')
  qed
  show ?thesis
    unfolding heap_except_def len using A B by blast
qed

lemma min_heapify_heap_from:
  "size_q q = length (elements q) \<Longrightarrow> k \<le> i \<Longrightarrow> heap_except k i (elements q) \<Longrightarrow>
   heap_from k (elements (min_heapify q i))"
proof (induction q i rule: min_heapify.induct)
  case (1 q i)
  show ?case
  proof (cases "smallest_of q i = i")
    case True
    have "fst (elements q ! parent j) \<le> fst (elements q ! j)"
      if "0 < j" "j < length (elements q)" "k \<le> parent j" for j
    proof (cases "parent j = i")
      case True
      with smallest_of_eq[OF "1.prems"(1) \<open>smallest_of q i = i\<close> that(1,2)] show ?thesis by simp
    next
      case False
      then show ?thesis using "1.prems"(3) that by (auto simp: heap_except_def)
    qed
    then show ?thesis
      using True by (subst min_heapify.simps) (simp add: heap_from_def)
  next
    case False
    let ?s = "smallest_of q i"
    have "i < ?s" using smallest_of_neq(6)[OF "1.prems"(1) False] .
    then have ks: "k \<le> ?s" using "1.prems"(2) by simp
    have n': "size_q (swap_entries q i ?s) = length (elements (swap_entries q i ?s))"
      using "1.prems"(1) by (simp add: size_q_swap_entries elements_swap_entries)
    have "heap_from k (elements (min_heapify (swap_entries q i ?s) ?s))"
      using "1.IH"[OF refl False n' ks heap_except_swap[OF "1.prems"(1) False "1.prems"(2,3)]] .
    then show ?thesis
      using False by (subst min_heapify.simps) (simp add: Let_def)
  qed
qed


lemma size_q_min_heapify: "size_q (min_heapify q i) = size_q q"
proof (induction q i rule: min_heapify.induct)
  case (1 q i)
  then show ?case
    by (subst min_heapify.simps) (simp add: Let_def size_q_swap_entries)
qed

lemma wf_q_min_heapify: "wf_q q \<Longrightarrow> wf_q (min_heapify q i)"
proof (induction q i rule: min_heapify.induct)
  case (1 q i)
  show ?case
  proof (cases "smallest_of q i = i")
    case True
    then show ?thesis using "1.prems" by (subst min_heapify.simps) simp
  next
    case False
    have n: "size_q q = length (elements q)" using "1.prems" by (simp add: wf_q_def)
    have "smallest_of q i < size_q q" "i < size_q q"
      using smallest_of_neq(1,6)[OF n False] n by auto
    then have "wf_q (swap_entries q i (smallest_of q i))"
      using wf_q_swap_entries "1.prems" by blast
    then show ?thesis
      using "1.IH"[OF refl False] False by (subst min_heapify.simps) (simp add: Let_def)
  qed
qed

lemma mset_min_heapify:
  "size_q q = length (elements q) \<Longrightarrow> mset (elements (min_heapify q i)) = mset (elements q)"
proof (induction q i rule: min_heapify.induct)
  case (1 q i)
  show ?case
  proof (cases "smallest_of q i = i")
    case True
    then show ?thesis by (subst min_heapify.simps) simp
  next
    case False
    have "smallest_of q i < length (elements q)" "i < length (elements q)"
      using smallest_of_neq(1,6)[OF "1.prems" False] by auto
    then have m: "mset (elements (swap_entries q i (smallest_of q i))) = mset (elements q)"
      by (rule mset_swap_entries[OF _ _, rotated])
    have "size_q (swap_entries q i (smallest_of q i)) = length (elements (swap_entries q i (smallest_of q i)))"
      using "1.prems" by (simp add: size_q_swap_entries elements_swap_entries)
    then show ?thesis
      using "1.IH"[OF refl False] False m by (subst min_heapify.simps) (simp add: Let_def)
  qed
qed

lemma heap_up_swap:
  assumes i: "0 < i" "i < length (elements q)"
    and gt: "fst (elements q ! parent i) > fst (elements q ! i)"
    and hu: "heap_up i (elements q)"
  shows "heap_up (parent i) (elements (swap_entries q i (parent i)))"
proof -
  let ?p = "parent i"
  let ?es = "elements q"
  let ?es' = "elements (swap_entries q i ?p)"
  have pi: "?p < i" using parent_less i by simp
  then have p: "?p < length ?es" using i by simp
  have nth': "\<And>x. x < length ?es \<Longrightarrow>
      ?es' ! x = (if x = ?p then ?es ! i else if x = i then ?es ! ?p else ?es ! x)"
    using i p by (simp add: elements_swap_entries nth_list_update)
  have len: "length ?es' = length ?es" by (simp add: elements_swap_entries)
  have A: "fst (?es' ! parent j) \<le> fst (?es' ! j)"
    if j: "0 < j" "j < length ?es" "j \<noteq> ?p" for j
  proof -
    have pj: "parent j < length ?es" "parent j < j" using parent_less[OF j(1)] j(2) by simp_all
    consider "j = i" | "j \<noteq> i" "parent j = ?p" | "j \<noteq> i" "parent j = i" | "j \<noteq> i" "parent j \<noteq> ?p" "parent j \<noteq> i"
      by blast
    then show ?thesis
    proof cases
      case 1
      then show ?thesis using gt pi i p by (simp add: nth')
    next
      case 2
      have "fst (?es ! ?p) \<le> fst (?es ! j)" using hu j 2 by (auto simp: heap_up_def)
      then show ?thesis using 2 gt j pj pi by (simp add: nth')
    next
      case 3
      have "fst (?es ! ?p) \<le> fst (?es ! j)" using hu j 3 i by (auto simp: heap_up_def)
      then show ?thesis using 3 j pj pi by (simp add: nth')
    next
      case 4
      have "fst (?es ! parent j) \<le> fst (?es ! j)" using hu j 4 by (auto simp: heap_up_def)
      then show ?thesis using 4 j pj by (simp add: nth')
    qed
  qed
  have B: "fst (?es' ! parent ?p) \<le> fst (?es' ! j)"
    if j: "0 < ?p" "0 < j" "j < length ?es" "parent j = ?p" for j
  proof -
    have pp: "parent ?p < ?p" using parent_less j(1) by simp
    have e: "fst (?es ! parent ?p) \<le> fst (?es ! ?p)"
      using hu j(1) p pi by (auto simp: heap_up_def)
    have jp: "j \<noteq> ?p" using j parent_less[of j] by auto
    show ?thesis
    proof (cases "j = i")
      case True
      then show ?thesis using e pp pi p i by (simp add: nth')
    next
      case False
      have "fst (?es ! ?p) \<le> fst (?es ! j)" using hu j False by (auto simp: heap_up_def)
      then show ?thesis using e False jp pp pi p j by (simp add: nth')
    qed
  qed
  show ?thesis
    unfolding heap_up_def len using A B by blast
qed

lemma decrease_key_loop_heap:
  "i < length (elements q) \<Longrightarrow> heap_up i (elements q) \<Longrightarrow>
   heap_from 0 (elements (decrease_key_loop q i))"
proof (induction q i rule: decrease_key_loop.induct)
  case (1 q i)
  show ?case
  proof (cases "i > 0 \<and> fst (elements q ! parent i) > fst (elements q ! i)")
    case True
    have "parent i < length (elements (swap_entries q i (parent i)))"
      using parent_less[of i] True "1.prems"(1) by (simp add: elements_swap_entries)
    then have "heap_from 0 (elements (decrease_key_loop (swap_entries q i (parent i)) (parent i)))"
      using "1.IH"[OF True] heap_up_swap[of i q] True "1.prems" by blast
    then show ?thesis using True by (subst decrease_key_loop.simps) simp
  next
    case False
    have "fst (elements q ! parent j) \<le> fst (elements q ! j)"
      if "0 < j" "j < length (elements q)" for j
      using that False "1.prems"(2) by (cases "j = i") (auto simp: heap_up_def)
    then show ?thesis using False by (subst decrease_key_loop.simps) (auto simp: heap_from_def)
  qed
qed

lemma size_q_decrease_key_loop: "size_q (decrease_key_loop q i) = size_q q"
proof (induction q i rule: decrease_key_loop.induct)
  case (1 q i)
  then show ?case
    by (subst decrease_key_loop.simps) (simp add: size_q_swap_entries)
qed

lemma wf_q_decrease_key_loop: "wf_q q \<Longrightarrow> i < size_q q \<Longrightarrow> wf_q (decrease_key_loop q i)"
proof (induction q i rule: decrease_key_loop.induct)
  case (1 q i)
  show ?case
  proof (cases "i > 0 \<and> fst (elements q ! parent i) > fst (elements q ! i)")
    case True
    have p: "parent i < size_q q" using parent_less[of i] True "1.prems"(2) by simp
    then have "wf_q (swap_entries q i (parent i))"
      using wf_q_swap_entries "1.prems" by blast
    then show ?thesis
      using "1.IH"[OF True] True p by (subst decrease_key_loop.simps) (simp add: size_q_swap_entries)
  next
    case False
    then show ?thesis using "1.prems" by (subst decrease_key_loop.simps) auto
  qed
qed

lemma mset_decrease_key_loop:
  "i < length (elements q) \<Longrightarrow> mset (elements (decrease_key_loop q i)) = mset (elements q)"
proof (induction q i rule: decrease_key_loop.induct)
  case (1 q i)
  show ?case
  proof (cases "i > 0 \<and> fst (elements q ! parent i) > fst (elements q ! i)")
    case True
    have p: "parent i < length (elements q)" using parent_less[of i] True "1.prems" by simp
    have m: "mset (elements (swap_entries q i (parent i))) = mset (elements q)"
      using mset_swap_entries[OF "1.prems" p] .
    have "parent i < length (elements (swap_entries q i (parent i)))"
      using p by (simp add: elements_swap_entries)
    then show ?thesis
      using "1.IH"[OF True] True m by (subst decrease_key_loop.simps) simp
  next
    case False
    then show ?thesis by (subst decrease_key_loop.simps) auto
  qed
qed


lemma wf_q_mapping_iff:
  "wf_q q \<Longrightarrow> mapping q e = Some i \<longleftrightarrow> i < length (elements q) \<and> snd (elements q ! i) = e"
  by (simp add: wf_q_def)

lemma wf_q_mapping_None: "wf_q q \<Longrightarrow> mapping q e = None \<longleftrightarrow> e \<notin> snd ` set (elements q)"
proof
  assume w: "wf_q q" and n: "mapping q e = None"
  show "e \<notin> snd ` set (elements q)"
  proof
    assume "e \<in> snd ` set (elements q)"
    then obtain i where "i < length (elements q)" "snd (elements q ! i) = e"
      by (auto simp: in_set_conv_nth)
    then have "mapping q e = Some i" using w by (simp add: wf_q_def)
    then show False using n by simp
  qed
next
  assume w: "wf_q q" and n: "e \<notin> snd ` set (elements q)"
  show "mapping q e = None"
  proof (cases "mapping q e")
    case (Some i)
    then have "i < length (elements q)" "snd (elements q ! i) = e"
      using w by (simp_all add: wf_q_def)
    then have "e \<in> snd ` set (elements q)" by (metis imageI nth_mem)
    then show ?thesis using n by simp
  qed simp
qed

lemma element_exists_iff: "wf_q q \<Longrightarrow> element_exists q e \<longleftrightarrow> e \<in> snd ` set (elements q)"
  using wf_q_mapping_None[of q e] by (auto simp: element_exists_def split: option.splits)


lemma get_key_iff: "wf_q q \<Longrightarrow> get_key q e = Inr k \<longleftrightarrow> (k, e) \<in> set (elements q)"
proof
  assume w: "wf_q q" and g: "get_key q e = Inr k"
  then obtain i where i: "mapping q e = Some i" "fst (elements q ! i) = k"
    by (auto simp: get_key_def split: option.splits)
  then have "i < length (elements q)" "snd (elements q ! i) = e"
    using w by (simp_all add: wf_q_def)
  then show "(k, e) \<in> set (elements q)" using i(2) by (metis nth_mem prod.collapse)
next
  assume w: "wf_q q" and g: "(k, e) \<in> set (elements q)"
  then obtain i where i: "i < length (elements q)" "elements q ! i = (k, e)"
    by (auto simp: in_set_conv_nth)
  then have "mapping q e = Some i" using w by (simp add: wf_q_def)
  then show "get_key q e = Inr k" using i by (simp add: get_key_def)
qed

lemma get_key_KeyError: "wf_q q \<Longrightarrow> get_key q e = Inl KeyError \<longleftrightarrow> e \<notin> snd ` set (elements q)"
  using wf_q_mapping_None[of q e] by (auto simp: get_key_def split: option.splits)

lemma heap_from_root_min:
  "heap_from 0 es \<Longrightarrow> j < length es \<Longrightarrow> fst (es ! 0) \<le> fst (es ! j)"
proof (induction j rule: less_induct)
  case (less j)
  show ?case
  proof (cases "j = 0")
    case False
    then have "parent j < j" using parent_less by simp
    moreover have "fst (es ! parent j) \<le> fst (es ! j)"
      using less.prems False by (simp add: heap_from_def)
    ultimately show ?thesis using less.IH[of "parent j"] less.prems by force
  qed simp
qed

lemma decrease_key_spec:
  assumes inv: "pq_inv q" and mem: "(k0, e) \<in> set (elements q)" and le: "k \<le> k0"
  shows "\<exists>q'. decrease_key q e k = (Inr (), q') \<and> pq_inv q' \<and>
           mset (elements q') = add_mset (k, e) (mset (elements q) - {#(k0, e)#})"
proof -
  let ?es = "elements q"
  have w: "wf_q q" and h: "heap_from 0 ?es" using inv by (simp_all add: pq_inv_def)
  obtain i where i: "i < length ?es" "?es ! i = (k0, e)"
    using mem by (auto simp: in_set_conv_nth)
  then have mi: "mapping q e = Some i" using w by (simp add: wf_q_def)
  let ?es1 = "?es[i := (k, e)]"
  let ?q1 = "q\<lparr>elements := ?es1\<rparr>"
  have ids: "map snd ?es1 = map snd ?es"
    using i by (simp add: map_update list_update_same_conv)
  have len1: "length ?es1 = length ?es" by simp
  have snd1: "\<And>x. x < length ?es \<Longrightarrow> snd (?es1 ! x) = snd (?es ! x)"
    using ids by (metis length_map nth_map len1)
  have w1: "wf_q ?q1"
    using w ids snd1 unfolding wf_q_def by (simp del: length_list_update) (metis len1)
  have fst1: "\<And>x. x < length ?es \<Longrightarrow> fst (?es1 ! x) = (if x = i then k else fst (?es ! x))"
    by (simp add: nth_list_update)
  have edge: "\<And>j. 0 < j \<Longrightarrow> j < length ?es \<Longrightarrow> fst (?es ! parent j) \<le> fst (?es ! j)"
    using h by (simp add: heap_from_def)
  have hu: "heap_up i ?es1"
    unfolding heap_up_def
  proof (intro conjI allI impI)
    fix j assume j: "0 < j \<and> j < length ?es1 \<and> j \<noteq> i"
    then have "parent j < length ?es" using parent_less[of j] by simp
    then show "fst (?es1 ! parent j) \<le> fst (?es1 ! j)"
      using edge[of j] j le i by (auto simp: fst1)
  next
    fix j assume "0 < i" and j: "0 < j \<and> j < length ?es1 \<and> parent j = i"
    have "parent i < i" using parent_less \<open>0 < i\<close> by simp
    moreover have "j \<noteq> i" using j parent_less[of j] by auto
    ultimately show "fst (?es1 ! parent i) \<le> fst (?es1 ! j)"
      using edge[of j] edge[of i] j i \<open>0 < i\<close> by (auto simp: fst1)
  qed
  let ?q' = "decrease_key_loop ?q1 i"
  have "decrease_key q e k = (Inr (), ?q')"
    using mi i le by (simp add: decrease_key_def)
  moreover have "pq_inv ?q'"
    using wf_q_decrease_key_loop[OF w1] decrease_key_loop_heap[of i ?q1] hu i w
    by (simp add: pq_inv_def wf_q_def)
  moreover have "mset (elements ?q') = add_mset (k, e) (mset ?es - {#(k0, e)#})"
    using mset_decrease_key_loop[of i ?q1] i by (simp add: mset_update)
  ultimately show ?thesis by blast
qed

lemma insert_q_spec:
  assumes inv: "pq_inv q" and fresh: "e \<notin> snd ` set (elements q)"
  shows "\<exists>q'. insert_q q k e = (Inr (), q') \<and> pq_inv q' \<and>
           mset (elements q') = add_mset (k, e) (mset (elements q))"
proof -
  let ?es = "elements q"
  let ?n = "length ?es"
  have w: "wf_q q" and h: "heap_from 0 ?es" using inv by (simp_all add: pq_inv_def)
  have n: "size_q q = ?n" using w by (simp add: wf_q_def)
  let ?q1 = "q\<lparr>elements := ?es @ [(k, e)], size_q := size_q q + 1,
                mapping := (mapping q)(e \<mapsto> (size_q q + 1) - 1)\<rparr>"
  have map1: "mapping ?q1 x = Some i \<longleftrightarrow> i < length (elements ?q1) \<and> snd (elements ?q1 ! i) = x" for x i
  proof (cases "i < ?n")
    case True
    then have "snd (?es ! i) \<noteq> e" using fresh by (metis imageI nth_mem)
    then show ?thesis using True w n by (auto simp: wf_q_def nth_append)
  next
    case False
    have "mapping q x \<noteq> Some i" using False w by (simp add: wf_q_def)
    then show ?thesis using False n by (auto simp: nth_append)
  qed
  have w1: "wf_q ?q1"
    unfolding wf_q_def using map1 w fresh n by (auto simp: wf_q_def)
  have edge: "\<And>j. 0 < j \<Longrightarrow> j < ?n \<Longrightarrow> fst (?es ! parent j) \<le> fst (?es ! j)"
    using h by (simp add: heap_from_def)
  have h1: "heap_up ?n (?es @ [(k, e)])"
    unfolding heap_up_def
  proof (intro conjI allI impI)
    fix j assume j: "0 < j \<and> j < length (?es @ [(k, e)]) \<and> j \<noteq> ?n"
    then have "j < ?n" "parent j < ?n" using parent_less[of j] by simp_all
    then show "fst ((?es @ [(k, e)]) ! parent j) \<le> fst ((?es @ [(k, e)]) ! j)"
      using edge[of j] j by (simp add: nth_append)
  next
    fix j assume "0 < j \<and> j < length (?es @ [(k, e)]) \<and> parent j = ?n"
    then have False using parent_less[of j] by simp
    then show "fst ((?es @ [(k, e)]) ! parent ?n) \<le> fst ((?es @ [(k, e)]) ! j)" ..
  qed
  let ?q' = "decrease_key_loop ?q1 ?n"
  have m1: "mapping ?q1 e = Some ?n" and e1: "elements ?q1 ! ?n = (k, e)"
    using n by simp_all
  have u1: "?q1\<lparr>elements := (elements ?q1)[?n := (k, e)]\<rparr> = ?q1"
    by (cases q) simp
  have "decrease_key ?q1 e k = (Inr (), ?q')"
    unfolding decrease_key_def
    by (simp only: m1 e1 u1 option.case fst_conv snd_conv order_refl if_True)
  then have "insert_q q k e = (Inr (), ?q')"
    by (simp only: insert_q_def)
  moreover have "pq_inv ?q'"
    using wf_q_decrease_key_loop[OF w1, of ?n] decrease_key_loop_heap[of ?n ?q1] h1 n
    by (simp add: pq_inv_def)
  moreover have "mset (elements ?q') = add_mset (k, e) (mset ?es)"
    using mset_decrease_key_loop[of ?n ?q1] by simp
  ultimately show ?thesis by blast
qed


lemma extract_min_empty: "size_q q = 0 \<Longrightarrow> extract_min q = (Inl IndexError, q)"
  by (simp add: extract_min_def)

lemma extract_min_spec:
  assumes inv: "pq_inv q" and ne: "elements q \<noteq> []"
  shows "\<exists>k e q'. extract_min q = (Inr e, q') \<and> pq_inv q' \<and> elements q ! 0 = (k, e) \<and>
           mset (elements q) = add_mset (k, e) (mset (elements q')) \<and>
           (\<forall>x \<in> set (elements q). k \<le> fst x)"
proof -
  let ?es = "elements q"
  have w: "wf_q q" and h: "heap_from 0 ?es" using inv by (simp_all add: pq_inv_def)
  have n: "size_q q = length ?es" and d: "distinct (map snd ?es)"
    and m: "\<And>e i. mapping q e = Some i \<longleftrightarrow> i < length ?es \<and> snd (?es ! i) = e"
    using w by (auto simp: wf_q_def)
  obtain k e where x: "?es ! 0 = (k, e)" by (cases "?es ! 0")
  have m0: "mapping q e = Some 0" using m ne x by simp
  have min: "\<forall>x \<in> set ?es. k \<le> fst x"
  proof
    fix y assume "y \<in> set ?es"
    then obtain j where "j < length ?es" "?es ! j = y" by (auto simp: in_set_conv_nth)
    then show "k \<le> fst y" using heap_from_root_min[OF h, of j] x by simp
  qed
  show ?thesis
  proof (cases "length ?es = 1")
    case True
    then have es: "?es = [(k, e)]" using x by (cases ?es) auto
    let ?q2 = "q\<lparr>elements := [], size_q := 0, mapping := (mapping q)(e := None)\<rparr>"
    have "extract_min q = (Inr e, ?q2)"
      using True n m0 es by (simp add: extract_min_def Let_def)
    moreover have "mapping ?q2 y \<noteq> Some i" for y i
      using m[of y i] es by (cases "y = e") auto
    then have "pq_inv ?q2" by (simp add: pq_inv_def wf_q_def heap_from_def)
    moreover have "mset ?es = add_mset (k, e) (mset (elements ?q2))" using es by simp
    ultimately show ?thesis using x min by blast
  next
    case False
    then have "length ?es \<ge> 2" using ne by (cases ?es; cases "tl ?es") auto
    then obtain ys z where es: "?es = (k, e) # ys @ [z]"
      using x by (cases ?es; cases "tl ?es" rule: rev_cases) auto
    let ?es1 = "z # ys"
    let ?q3 = "q\<lparr>elements := ?es1, size_q := size_q q - 1,
                 mapping := ((mapping q)(e := None))(snd z \<mapsto> 0)\<rparr>"
    have es1: "butlast (?es[0 := ?es ! (size_q q - 1)]) = ?es1"
      using es n by (simp add: nth_append butlast_append)
    have ex: "extract_min q = (Inr e, min_heapify ?q3 0)"
    proof -
      have "size_q q \<noteq> 0" "0 < size_q q - 1" using n es by simp_all
      moreover have "butlast (?es[0 := ?es ! (size_q q - Suc 0)]) = ?es1"
        using es1 by simp
      ultimately show ?thesis
        unfolding extract_min_def Let_def using m0 x by simp
    qed
    have dz: "snd z \<noteq> e" "snd z \<notin> snd ` set ys" "e \<notin> snd ` set ys" "distinct (map snd ys)"
      using d es by auto
    have nthy: "\<And>i. i < length ys \<Longrightarrow> snd (ys ! i) \<noteq> e \<and> snd (ys ! i) \<noteq> snd z"
      using dz by (metis imageI nth_mem)
    have map3: "mapping ?q3 y = Some i \<longleftrightarrow> i < length ?es1 \<and> snd (?es1 ! i) = y" for y i
    proof -
      have my: "mapping q y = Some i \<longleftrightarrow>
          i < Suc (Suc (length ys)) \<and> snd (((k, e) # ys @ [z]) ! i) = y"
        using m[of y i] es by simp
      consider "i = 0" | "0 < i" "i \<le> length ys" | "i = Suc (length ys)" | "i > Suc (length ys)"
        by linarith
      then show ?thesis
      proof cases
        case 1
        then show ?thesis using my dz by auto
      next
        case 2
        then obtain i' where i': "i = Suc i'" "i' < length ys" by (cases i) auto
        then show ?thesis using my nthy[of i'] by (auto simp: nth_append)
      next
        case 3
        then show ?thesis using my dz by (auto simp: nth_append)
      next
        case 4
        then show ?thesis using my by auto
      qed
    qed
    have w3: "wf_q ?q3"
      unfolding wf_q_def using map3 dz n es by auto
    have edge: "\<And>j. 0 < j \<Longrightarrow> j < length ?es \<Longrightarrow> fst (?es ! parent j) \<le> fst (?es ! j)"
      using h by (simp add: heap_from_def)
    have he: "heap_except 0 0 ?es1"
      unfolding heap_except_def
    proof (intro conjI allI impI)
      fix j assume j: "0 < j \<and> j < length ?es1 \<and> 0 \<le> parent j \<and> parent j \<noteq> 0"
      then obtain j' p' where jp: "j = Suc j'" "parent j = Suc p'" "p' < j'" "j' < length ys"
        using parent_less[of j] by (cases j; cases "parent j") auto
      then show "fst (?es1 ! parent j) \<le> fst (?es1 ! j)"
        using edge[of j] es by (simp add: nth_append)
    qed simp
    have n3: "size_q ?q3 = length (elements ?q3)" using n es by simp
    have "pq_inv (min_heapify ?q3 0)"
      using wf_q_min_heapify[OF w3] min_heapify_heap_from[OF n3, of 0 0] he
      by (simp add: pq_inv_def)
    moreover have "mset ?es = add_mset (k, e) (mset (elements (min_heapify ?q3 0)))"
      using mset_min_heapify[OF n3] es by simp
    ultimately show ?thesis using ex x min by blast
  qed
qed

lemma wf_q_append:
  assumes w: "wf_q q" and fresh: "e \<notin> snd ` set (elements q)"
  shows "wf_q (q\<lparr>elements := elements q @ [(k, e)], size_q := size_q q + 1,
                 mapping := (mapping q)(e \<mapsto> (size_q q + 1) - 1)\<rparr>)"
proof -
  let ?es = "elements q"
  let ?n = "length ?es"
  have n: "size_q q = ?n" using w by (simp add: wf_q_def)
  let ?q1 = "q\<lparr>elements := ?es @ [(k, e)], size_q := size_q q + 1,
                mapping := (mapping q)(e \<mapsto> (size_q q + 1) - 1)\<rparr>"
  have map1: "mapping ?q1 x = Some i \<longleftrightarrow> i < length (elements ?q1) \<and> snd (elements ?q1 ! i) = x" for x i
  proof (cases "i < ?n")
    case True
    then have "snd (?es ! i) \<noteq> e" using fresh by (metis imageI nth_mem)
    then show ?thesis using True w n by (auto simp: wf_q_def nth_append)
  next
    case False
    have "mapping q x \<noteq> Some i" using False w by (simp add: wf_q_def)
    then show ?thesis using False n by (auto simp: nth_append)
  qed
  show ?thesis
    unfolding wf_q_def using map1 w fresh n by (auto simp: wf_q_def)
qed

lemma elements_init_loop: "elements (init_loop q args) = elements q @ args"
  by (induction args arbitrary: q) simp_all

lemma wf_q_init_loop:
  "wf_q q \<Longrightarrow> distinct (map snd (elements q @ args)) \<Longrightarrow> wf_q (init_loop q args)"
proof (induction args arbitrary: q)
  case (Cons a args)
  obtain k e where a: "a = (k, e)" by (cases a)
  have "e \<notin> snd ` set (elements q)" using Cons.prems(2) a by auto
  from wf_q_append[OF Cons.prems(1) this, of k]
  show ?case using Cons.IH Cons.prems(2) a by simp
qed simp

lemma wf_q_build_loop: "wf_q q \<Longrightarrow> wf_q (build_loop q n)"
  by (induction n arbitrary: q) (simp_all add: wf_q_min_heapify)

lemma mset_build_loop:
  "size_q q = length (elements q) \<Longrightarrow> mset (elements (build_loop q n)) = mset (elements q)"
proof (induction n arbitrary: q)
  case (Suc n)
  have "size_q (min_heapify q n) = length (elements (min_heapify q n))"
    using Suc.prems mset_min_heapify[OF Suc.prems, of n]
    by (metis size_mset size_q_min_heapify)
  then show ?case using Suc.IH mset_min_heapify[OF Suc.prems, of n] by simp
qed simp

lemma build_loop_heap:
  "size_q q = length (elements q) \<Longrightarrow> heap_from n (elements q) \<Longrightarrow>
   heap_from 0 (elements (build_loop q n))"
proof (induction n arbitrary: q)
  case (Suc n)
  have "heap_except n n (elements q)"
    using Suc.prems(2) parent_less[of n] unfolding heap_except_def heap_from_def
    by (auto simp: Suc_le_eq)
  then have h: "heap_from n (elements (min_heapify q n))"
    using min_heapify_heap_from[OF Suc.prems(1), of n n] by simp
  have "size_q (min_heapify q n) = length (elements (min_heapify q n))"
    using Suc.prems(1) mset_min_heapify[OF Suc.prems(1), of n]
    by (metis size_mset size_q_min_heapify)
  then show ?case using Suc.IH h by simp
qed simp

lemma pq_inv_init:
  assumes "distinct (map snd args)"
  shows "pq_inv (MinPriorityQueue_init args)"
    and "mset (elements (MinPriorityQueue_init args)) = mset args"
proof -
  let ?qe = "\<lparr>elements = [], size_q = 0, mapping = Map.empty\<rparr> :: 'a MinPriorityQueue"
  let ?q = "init_loop ?qe args"
  have w0: "wf_q ?qe" unfolding wf_q_def by simp
  have w: "wf_q ?q" by (rule wf_q_init_loop[OF w0]) (simp add: assms)
  have el: "elements ?q = args" by (simp add: elements_init_loop)
  have n: "size_q ?q = length (elements ?q)" using w by (simp add: wf_q_def)
  show "mset (elements (MinPriorityQueue_init args)) = mset args"
    using mset_build_loop[OF n] el
    by (simp add: MinPriorityQueue_init_def build_min_heap_def del: build_loop.simps)
  show "pq_inv (MinPriorityQueue_init args)"
  proof (cases "size_q ?q \<le> 1")
    case True
    then have "heap_from 0 (elements ?q)" using n by (auto simp: heap_from_def)
    then show ?thesis using True w by (simp add: MinPriorityQueue_init_def build_min_heap_def pq_inv_def)
  next
    case False
    have "heap_from (Suc (parent (size_q ?q - 1))) (elements ?q)"
      using n by (auto simp: heap_from_def parent_def)
    then show ?thesis
      using False wf_q_build_loop[OF w] build_loop_heap[OF n]
      by (simp add: MinPriorityQueue_init_def build_min_heap_def pq_inv_def del: build_loop.simps)
  qed
qed


lemma heap_order_iff: "size_q q = length (elements q) \<Longrightarrow> heap_order q \<longleftrightarrow> heap_from 0 (elements q)"
  by (auto simp: heap_order_def heap_from_def)

lemma pq_inv_heap_order: "pq_inv q \<Longrightarrow> heap_order q"
  by (simp add: pq_inv_def wf_q_def heap_order_iff)

lemma apply_op_pq_inv:
  assumes "pq_inv q" "op_pre q x"
  shows "\<exists>q'. apply_op q x = (Inr (), q') \<and> pq_inv q'"
proof (cases x)
  case (Insert k e)
  have "e \<notin> snd ` set (elements q)"
    using assms Insert element_exists_iff[of q e] by (simp add: pq_inv_def)
  from insert_q_spec[OF assms(1) this, of k] show ?thesis using Insert by auto
next
  case ExtractMin
  have "elements q \<noteq> []" using assms ExtractMin by (auto simp: pq_inv_def wf_q_def)
  from extract_min_spec[OF assms(1) this] show ?thesis using ExtractMin by auto
next
  case (DecreaseKey e k)
  then obtain k0 where k0: "get_key q e = Inr k0" "k \<le> k0"
    using assms(2) by (auto split: sum.splits)
  then have "(k0, e) \<in> set (elements q)"
    using assms(1) get_key_iff[of q e k0] by (simp add: pq_inv_def)
  from decrease_key_spec[OF assms(1) this k0(2)] show ?thesis using DecreaseKey by auto
qed

lemma run_ops_pq_inv:
  "pq_inv q \<Longrightarrow> ops_pre q ops \<Longrightarrow> \<exists>q'. run_ops q ops = (Inr (), q') \<and> pq_inv q'"
proof (induction ops arbitrary: q)
  case (Cons x xs)
  then obtain q1 where q1: "apply_op q x = (Inr (), q1)" "pq_inv q1"
    using apply_op_pq_inv[of q x] by auto
  then have "ops_pre q1 xs" using Cons.prems(2) by simp
  from Cons.IH[OF q1(2) this] show ?case using q1(1) by simp
qed simp

lemma pq_inv_mapping_consistent:
  assumes "pq_inv q"
  shows "(\<forall>e \<in> snd ` set (elements q). \<exists>i. mapping q e = Some i \<and> i < size_q q \<and>
            snd (elements q ! i) = e \<and> get_key q e = Inr (fst (elements q ! i))) \<and>
         (\<forall>e. e \<notin> snd ` set (elements q) \<longrightarrow> mapping q e = None \<and> \<not> element_exists q e) \<and>
         (\<forall>e q'. extract_min q = (Inr e, q') \<longrightarrow>
            e \<notin> snd ` set (elements q') \<and> mapping q' e = None \<and> \<not> element_exists q' e)"
proof (intro conjI ballI allI impI)
  have w: "wf_q q" using assms by (simp add: pq_inv_def)
  fix e assume "e \<in> snd ` set (elements q)"
  then obtain i where i: "i < length (elements q)" "snd (elements q ! i) = e"
    by (auto simp: in_set_conv_nth)
  then have m: "mapping q e = Some i" using w by (simp add: wf_q_def)
  have "size_q q = length (elements q)" using w by (simp add: wf_q_def)
  then show "\<exists>i. mapping q e = Some i \<and> i < size_q q \<and>
            snd (elements q ! i) = e \<and> get_key q e = Inr (fst (elements q ! i))"
    using i m by (intro exI[of _ i]) (simp add: get_key_def)
next
  have w: "wf_q q" using assms by (simp add: pq_inv_def)
  fix e assume e: "e \<notin> snd ` set (elements q)"
  show "mapping q e = None" using wf_q_mapping_None[OF w] e by simp
  show "\<not> element_exists q e" using element_exists_iff[OF w] e by simp
next
  fix e q' assume ex: "extract_min q = (Inr e, q')"
  have ne: "elements q \<noteq> []"
    using ex assms by (auto simp: extract_min_def pq_inv_def wf_q_def)
  from extract_min_spec[OF assms ne] obtain k where
    k: "pq_inv q'" "mset (elements q) = add_mset (k, e) (mset (elements q'))"
    using ex by auto
  have "distinct (map snd (elements q))" using assms by (simp add: pq_inv_def wf_q_def)
  moreover have "mset (map snd (elements q)) = mset (e # map snd (elements q'))"
    using k(2) by (metis (no_types) mset_map image_mset_add_mset snd_conv mset.simps(2))
  ultimately have "distinct (e # map snd (elements q'))"
    using mset_eq_imp_distinct_iff by blast
  then have "e \<notin> set (map snd (elements q'))" by simp
  then show e: "e \<notin> snd ` set (elements q')" by simp
  have w': "wf_q q'" using k(1) by (simp add: pq_inv_def)
  show "mapping q' e = None" using wf_q_mapping_None[OF w'] e by simp
  show "\<not> element_exists q' e" using element_exists_iff[OF w'] e by simp
qed

lemma drain_sorted:
  "pq_inv q \<Longrightarrow> \<exists>kvs. fst (drain q) = map snd kvs \<and> sorted (map fst kvs) \<and>
      mset kvs = mset (elements q) \<and> snd (drain q) = IndexError"
proof (induction "length (elements q)" arbitrary: q)
  case 0
  then have "size_q q = 0" by (simp add: pq_inv_def wf_q_def)
  then have "drain q = ([], IndexError)"
    by (subst drain.simps) (simp add: extract_min_empty)
  then show ?case using 0 by simp
next
  case (Suc n)
  then have ne: "elements q \<noteq> []" by auto
  from extract_min_spec[OF Suc.prems ne] obtain k e q' where
    q': "extract_min q = (Inr e, q')" "pq_inv q'"
        "mset (elements q) = add_mset (k, e) (mset (elements q'))"
        "\<forall>x \<in> set (elements q). k \<le> fst x"
    by blast
  have "length (elements q) = Suc (length (elements q'))"
    using q'(3) by (metis size_add_mset size_mset)
  then have "n = length (elements q')" using Suc.hyps(2) by simp
  from Suc.hyps(1)[OF this q'(2)] obtain kvs where
    kvs: "fst (drain q') = map snd kvs" "sorted (map fst kvs)"
         "mset kvs = mset (elements q')" "snd (drain q') = IndexError"
    by blast
  have "set kvs \<subseteq> set (elements q)"
    using kvs(3) q'(3) by (metis mset_eq_setD set_mset_add_mset_insert set_mset_mset subset_insertI)
  then have "\<forall>x \<in> set kvs. k \<le> fst x" using q'(4) by blast
  then have "sorted (map fst ((k, e) # kvs))" using kvs(2) by simp
  moreover have "drain q = (e # fst (drain q'), snd (drain q'))"
    by (subst drain.simps) (simp add: q'(1) split: prod.splits)
  ultimately show ?case
    using kvs q'(3) by (intro exI[of _ "(k, e) # kvs"]) simp
qed

lemma key_of_Some:
  "distinct (map snd args) \<Longrightarrow> (k, e) \<in> set args \<Longrightarrow> key_of args e = Some k"
proof -
  assume d: "distinct (map snd args)" and m: "(k, e) \<in> set args"
  have eq: "map fst (map (\<lambda>(k, x). (x, k)) args) = map snd args" by (induction args) auto
  have "distinct (map fst (map (\<lambda>(k, x). (x, k)) args))" unfolding eq by (rule d)
  moreover have "(e, k) \<in> set (map (\<lambda>(k, x). (x, k)) args)" using m by force
  ultimately show ?thesis unfolding key_of_def by (rule map_of_is_SomeI)
qed

section \<open>Claims about the queue\<close>

text \<open>
  C3.  Start from a queue built by the constructor from pairs with distinct identities and
  apply any sequence of \<open>insert\<close>, \<open>extract_min\<close> and \<open>decrease_key\<close> in which every
  operation meets its precondition.  Then no operation raises, and in the final queue the
  key at \<open>parent i\<close> is at most the key at \<open>i\<close> for every non-root index \<open>i\<close>.
\<close>

theorem heap_order_after_operations:
  assumes "distinct (map snd args)" and "ops_pre (MinPriorityQueue_init args) ops"
  shows "\<exists>q'. run_ops (MinPriorityQueue_init args) ops = (Inr (), q') \<and> heap_order q'"
  using run_ops_pq_inv[OF pq_inv_init(1)[OF assms(1)] assms(2)] pq_inv_heap_order by blast

theorem heap_order_after_operations_witness:
  "distinct (map snd [(5::int, ''a''), (3, ''b'')]) \<and>
   ops_pre (MinPriorityQueue_init [(5::int, ''a''), (3, ''b'')])
      [Insert 1 ''c'', ExtractMin, DecreaseKey ''a'' 2, Insert 0 ''d''] \<and>
   (\<exists>q'. run_ops (MinPriorityQueue_init [(5::int, ''a''), (3, ''b'')])
      [Insert 1 ''c'', ExtractMin, DecreaseKey ''a'' 2, Insert 0 ''d''] = (Inr (), q') \<and> heap_order q')"
proof -
  have d: "distinct (map snd [(5::int, ''a''), (3, ''b'')])" by simp
  have p: "ops_pre (MinPriorityQueue_init [(5::int, ''a''), (3, ''b'')])
      [Insert 1 ''c'', ExtractMin, DecreaseKey ''a'' 2, Insert 0 ''d'']" by code_simp
  show ?thesis using d p heap_order_after_operations[OF d p] by blast
qed

text \<open>
  C4.  After any such sequence the mapping agrees with the element array: every identity
  in the queue is mapped to a position that stores this identity, \<open>get_key\<close> returns the
  key stored there, every identity not in the queue is absent from the mapping (so
  \<open>element_exists\<close> is false), and an identity returned by \<open>extract_min\<close> is absent
  afterwards.
\<close>

theorem mapping_consistent_after_operations:
  assumes "distinct (map snd args)" and "ops_pre (MinPriorityQueue_init args) ops"
  shows "\<exists>q. run_ops (MinPriorityQueue_init args) ops = (Inr (), q) \<and>
     (\<forall>e \<in> snd ` set (elements q). \<exists>i. mapping q e = Some i \<and> i < size_q q \<and>
            snd (elements q ! i) = e \<and> get_key q e = Inr (fst (elements q ! i))) \<and>
     (\<forall>e. e \<notin> snd ` set (elements q) \<longrightarrow> mapping q e = None \<and> \<not> element_exists q e) \<and>
     (\<forall>e q'. extract_min q = (Inr e, q') \<longrightarrow>
            e \<notin> snd ` set (elements q') \<and> mapping q' e = None \<and> \<not> element_exists q' e)"
proof -
  from run_ops_pq_inv[OF pq_inv_init(1)[OF assms(1)] assms(2)]
  obtain q where q: "run_ops (MinPriorityQueue_init args) ops = (Inr (), q)" "pq_inv q"
    by blast
  show ?thesis using q(1) pq_inv_mapping_consistent[OF q(2)] by blast
qed

theorem mapping_consistent_after_operations_witness:
  "distinct (map snd [(4::int, ''x''), (2, ''y''), (7, ''z'')]) \<and>
   ops_pre (MinPriorityQueue_init [(4::int, ''x''), (2, ''y''), (7, ''z'')])
      [ExtractMin, Insert 1 ''w'', DecreaseKey ''z'' 0] \<and>
   (\<exists>q. run_ops (MinPriorityQueue_init [(4::int, ''x''), (2, ''y''), (7, ''z'')])
      [ExtractMin, Insert 1 ''w'', DecreaseKey ''z'' 0] = (Inr (), q) \<and>
     (\<forall>e \<in> snd ` set (elements q). \<exists>i. mapping q e = Some i \<and> i < size_q q \<and>
            snd (elements q ! i) = e \<and> get_key q e = Inr (fst (elements q ! i))) \<and>
     (\<forall>e. e \<notin> snd ` set (elements q) \<longrightarrow> mapping q e = None \<and> \<not> element_exists q e))"
proof -
  have d: "distinct (map snd [(4::int, ''x''), (2, ''y''), (7, ''z'')])" by simp
  have p: "ops_pre (MinPriorityQueue_init [(4::int, ''x''), (2, ''y''), (7, ''z'')])
      [ExtractMin, Insert 1 ''w'', DecreaseKey ''z'' 0]" by code_simp
  show ?thesis using d p mapping_consistent_after_operations[OF d p] by blast
qed

text \<open>
  C5.  On a queue that satisfies the class invariant, \<open>decrease_key\<close> raises \<open>KeyError\<close>
  for an identity that is not in the queue; it raises \<open>ValueError\<close> when the new key is
  strictly greater than the current one, and the queue is then exactly as before; and when
  the new key is at most the current one it returns, the identity has the new key, every
  other identity keeps its key, and the heap order holds.
\<close>

theorem decrease_key_contract:
  assumes "pq_inv q"
  shows "(\<not> element_exists q e \<longrightarrow> decrease_key q e k = (Inl KeyError, q)) \<and>
         (\<forall>k0. get_key q e = Inr k0 \<and> k0 < k \<longrightarrow> decrease_key q e k = (Inl ValueError, q)) \<and>
         (\<forall>k0. get_key q e = Inr k0 \<and> k \<le> k0 \<longrightarrow>
            (\<exists>q'. decrease_key q e k = (Inr (), q') \<and> get_key q' e = Inr k \<and> heap_order q' \<and>
                  (\<forall>e'. e' \<noteq> e \<longrightarrow> get_key q' e' = get_key q e')))"
proof (intro conjI allI impI)
  assume "\<not> element_exists q e"
  then show "decrease_key q e k = (Inl KeyError, q)"
    by (auto simp: element_exists_def decrease_key_def split: option.splits)
next
  fix k0 assume "get_key q e = Inr k0 \<and> k0 < k"
  then show "decrease_key q e k = (Inl ValueError, q)"
    by (auto simp: get_key_def decrease_key_def split: option.splits)
next
  fix k0 assume a: "get_key q e = Inr k0 \<and> k \<le> k0"
  have w: "wf_q q" using assms by (simp add: pq_inv_def)
  have mem: "(k0, e) \<in> set (elements q)" using a get_key_iff[OF w] by simp
  from decrease_key_spec[OF assms mem] a obtain q' where
    q': "decrease_key q e k = (Inr (), q')" "pq_inv q'"
        "mset (elements q') = add_mset (k, e) (mset (elements q) - {#(k0, e)#})"
    by blast
  have w': "wf_q q'" using q'(2) by (simp add: pq_inv_def)
  have set': "set (elements q') = insert (k, e) (set (elements q) - {(k0, e)})"
  proof -
    have "distinct (elements q)" using w by (auto simp: wf_q_def distinct_map)
    then have "set_mset (mset (elements q) - {#(k0, e)#}) = set (elements q) - {(k0, e)}"
      by (metis distinct_remove1 mset_remove1 set_mset_mset set_remove1_eq)
    then show ?thesis using q'(3) by (metis set_mset_add_mset_insert set_mset_mset)
  qed
  have "get_key q' e = Inr k" using get_key_iff[OF w'] set' by simp
  moreover have "get_key q' e' = get_key q e'" if "e' \<noteq> e" for e'
  proof (cases "get_key q e'")
    case (Inl err)
    then have "err = KeyError" "mapping q e' = None"
      by (auto simp: get_key_def split: option.splits)
    then have "e' \<notin> snd ` set (elements q')"
      using wf_q_mapping_None[OF w] set' that by auto
    then show ?thesis using get_key_KeyError[OF w'] Inl \<open>err = KeyError\<close> by simp
  next
    case (Inr k')
    then have "(k', e') \<in> set (elements q)" using get_key_iff[OF w] by simp
    then have "(k', e') \<in> set (elements q')" using set' that by simp
    then show ?thesis using get_key_iff[OF w'] Inr by simp
  qed
  ultimately show "\<exists>q'. decrease_key q e k = (Inr (), q') \<and> get_key q' e = Inr k \<and> heap_order q' \<and>
                  (\<forall>e'. e' \<noteq> e \<longrightarrow> get_key q' e' = get_key q e')"
    using q'(1) pq_inv_heap_order[OF q'(2)] by blast
qed

theorem decrease_key_contract_witness:
  "pq_inv (MinPriorityQueue_init [(5::int, ''a''), (3, ''b'')]) \<and>
   decrease_key (MinPriorityQueue_init [(5::int, ''a''), (3, ''b'')]) ''z'' 1
     = (Inl KeyError, MinPriorityQueue_init [(5::int, ''a''), (3, ''b'')]) \<and>
   decrease_key (MinPriorityQueue_init [(5::int, ''a''), (3, ''b'')]) ''a'' 7
     = (Inl ValueError, MinPriorityQueue_init [(5::int, ''a''), (3, ''b'')]) \<and>
   (\<exists>q'. decrease_key (MinPriorityQueue_init [(5::int, ''a''), (3, ''b'')]) ''a'' 2 = (Inr (), q') \<and>
      get_key q' ''a'' = Inr 2 \<and> heap_order q')"
proof -
  let ?q = "MinPriorityQueue_init [(5::int, ''a''), (3, ''b'')]"
  have inv: "pq_inv ?q" by (rule pq_inv_init(1)) simp
  have z: "\<not> element_exists ?q ''z''" by code_simp
  have a: "get_key ?q ''a'' = Inr 5" by code_simp
  note c1 = decrease_key_contract[OF inv, of "''z''" 1, THEN conjunct1, rule_format, OF z]
  have "get_key ?q ''a'' = Inr 5 \<and> (5::int) < 7" using a by simp
  note c2 = decrease_key_contract[OF inv, of "''a''" 7, THEN conjunct2, THEN conjunct1,
      rule_format, OF this]
  have "get_key ?q ''a'' = Inr 5 \<and> (2::int) \<le> 5" using a by simp
  note c3 = decrease_key_contract[OF inv, of "''a''" 2, THEN conjunct2, THEN conjunct2,
      rule_format, OF this]
  show ?thesis using inv c1 c2 c3 by blast
qed

text \<open>
  C6.  The constructor turns any batch of pairs with distinct identities into a min-heap,
  whatever the input order.  Emptying the queue with \<open>extract_min\<close> returns every identity
  of the batch once, in non-decreasing order of their keys, and the loop ends with the
  \<open>IndexError\<close> of the empty queue.  With the keys \<open>5, 3, 8, 1, 9, 2\<close> the keys come out
  as \<open>1, 2, 3, 5, 8, 9\<close>.  \<open>extract_min\<close> on an empty queue raises \<open>IndexError\<close>.
\<close>

theorem construction_and_extraction_order:
  assumes "distinct (map snd args)"
  shows "heap_order (MinPriorityQueue_init args) \<and>
         sorted (map (\<lambda>e. the (key_of args e)) (fst (drain (MinPriorityQueue_init args)))) \<and>
         mset (map (\<lambda>e. (the (key_of args e), e)) (fst (drain (MinPriorityQueue_init args)))) = mset args \<and>
         snd (drain (MinPriorityQueue_init args)) = IndexError \<and>
         (map fst args = [5, 3, 8, 1, 9, 2] \<longrightarrow>
            map (\<lambda>e. the (key_of args e)) (fst (drain (MinPriorityQueue_init args))) = [1, 2, 3, 5, 8, 9]) \<and>
         (\<forall>q :: 'a MinPriorityQueue. size_q q = 0 \<longrightarrow> extract_min q = (Inl IndexError, q))"
proof -
  let ?q = "MinPriorityQueue_init args"
  let ?key = "\<lambda>e. the (key_of args e)"
  note inv = pq_inv_init[OF assms]
  from drain_sorted[OF inv(1)] obtain kvs where
    kvs: "fst (drain ?q) = map snd kvs" "sorted (map fst kvs)"
         "mset kvs = mset (elements ?q)" "snd (drain ?q) = IndexError"
    by blast
  have m: "mset kvs = mset args" using kvs(3) inv(2) by simp
  then have "set kvs = set args" by (metis set_mset_mset)
  then have "\<And>x. x \<in> set kvs \<Longrightarrow> ?key (snd x) = fst x"
    using key_of_Some[OF assms] by (metis option.sel prod.collapse)
  then have pairs: "map (\<lambda>e. (?key e, e)) (map snd kvs) = kvs"
    by (induction kvs) auto
  have pairs': "map (\<lambda>e. (?key e, e)) (fst (drain ?q)) = kvs"
    using pairs kvs(1) by simp
  have "map fst (map (\<lambda>e. (?key e, e)) (fst (drain ?q))) = map ?key (fst (drain ?q))"
    by simp
  then have keys: "map ?key (fst (drain ?q)) = map fst kvs"
    using pairs' by simp
  have particular: "map fst kvs = [1, 2, 3, 5, 8, 9]" if "map fst args = [5, 3, 8, 1, 9, 2]"
  proof -
    have "mset (map fst kvs) = mset [5, 3, 8, 1, 9, 2 :: int]"
      using m that by (metis mset_map)
    from properties_for_sort[OF this kvs(2)] show ?thesis by simp
  qed
  show ?thesis
    unfolding keys pairs'
    using pq_inv_heap_order[OF inv(1)] kvs(2,4) m particular extract_min_empty
    by blast
qed

theorem construction_and_extraction_order_witness:
  "distinct (map snd [(5::int, ''a''), (3, ''b''), (8, ''c''), (1, ''d''), (9, ''e''), (2, ''f'')]) \<and>
   heap_order (MinPriorityQueue_init [(5::int, ''a''), (3, ''b''), (8, ''c''), (1, ''d''), (9, ''e''), (2, ''f'')]) \<and>
   map (\<lambda>e. the (key_of [(5::int, ''a''), (3, ''b''), (8, ''c''), (1, ''d''), (9, ''e''), (2, ''f'')] e))
       (fst (drain (MinPriorityQueue_init [(5::int, ''a''), (3, ''b''), (8, ''c''), (1, ''d''), (9, ''e''), (2, ''f'')])))
     = [1, 2, 3, 5, 8, 9]"
proof -
  have d: "distinct (map snd [(5::int, ''a''), (3, ''b''), (8, ''c''), (1, ''d''), (9, ''e''), (2, ''f'')])"
    by simp
  have f: "map fst [(5::int, ''a''), (3, ''b''), (8, ''c''), (1, ''d''), (9, ''e''), (2, ''f'')] = [5, 3, 8, 1, 9, 2]"
    by simp
  note t = construction_and_extraction_order[OF d]
  note t1 = t[THEN conjunct1]
  note t2 = t[THEN conjunct2, THEN conjunct2, THEN conjunct2, THEN conjunct2, THEN conjunct1,
      rule_format, OF f]
  show ?thesis
    by (intro conjI) (rule d, rule t1, rule t2)
qed

section \<open>Properties of the grid\<close>

lemma row_col_of_ok: "cell_ok g \<Longrightarrow> row_col_of g p = Inr p"
proof -
  assume c: "cell_ok g"
  then have "columns g \<noteq> 0" "rows g \<noteq> 0"
    by (auto simp: cell_ok_def intro: ccontr)
  then show ?thesis using c
    by (cases p) (simp add: row_col_of_def get_pos_def get_row_def get_col_def cell_ok_def Let_def)
qed

lemma set_neighbours_loop:
  "set (neighbours_loop g r c offs) =
     {q. in_grid g q \<and> \<not> is_obstacle (nodes g q) \<and>
         (\<exists>(i, j) \<in> set offs. int (fst q) = int r + i \<and> int (snd q) = int c + j)}"
proof (induction offs)
  case Nil
  show ?case by simp
next
  case (Cons a offs)
  obtain i j where a: "a = (i, j)" by (cases a)
  have one: "set (if int r + i \<ge> 0 \<and> int c + j \<ge> 0
      then (if nat (int r + i) < rows g \<and> nat (int c + j) < columns g
            then (if \<not> is_obstacle (nodes g (nat (int r + i), nat (int c + j)))
                  then [(nat (int r + i), nat (int c + j))] else [])
            else [])
      else []) =
     {q. in_grid g q \<and> \<not> is_obstacle (nodes g q) \<and> int (fst q) = int r + i \<and> int (snd q) = int c + j}"
    (is "?L = ?R")
  proof (intro set_eqI iffI)
    fix q assume "q \<in> ?L"
    then have "q = (nat (int r + i), nat (int c + j))" "int r + i \<ge> 0" "int c + j \<ge> 0"
      "nat (int r + i) < rows g" "nat (int c + j) < columns g"
      "\<not> is_obstacle (nodes g (nat (int r + i), nat (int c + j)))"
      by (simp_all split: if_splits)
    then show "q \<in> ?R" by (simp add: in_grid_def)
  next
    fix q assume "q \<in> ?R"
    then have q: "in_grid g q" "\<not> is_obstacle (nodes g q)" "int (fst q) = int r + i" "int (snd q) = int c + j"
      by simp_all
    have "q = (nat (int r + i), nat (int c + j))"
      using q(3,4) by (metis nat_int prod.collapse)
    moreover have "int r + i \<ge> 0" "int c + j \<ge> 0" using q(3,4) by linarith+
    ultimately show "q \<in> ?L" using q(1,2) by (simp add: in_grid_def)
  qed
  have "set (neighbours_loop g r c (a # offs)) = ?L \<union> set (neighbours_loop g r c offs)"
    unfolding a by (simp only: neighbours_loop.simps set_append)
  also have "\<dots> = ?R \<union> {q. in_grid g q \<and> \<not> is_obstacle (nodes g q) \<and>
         (\<exists>(i, j) \<in> set offs. int (fst q) = int r + i \<and> int (snd q) = int c + j)}"
    unfolding one Cons.IH ..
  also have "\<dots> = {q. in_grid g q \<and> \<not> is_obstacle (nodes g q) \<and>
         (\<exists>(i, j) \<in> set (a # offs). int (fst q) = int r + i \<and> int (snd q) = int c + j)}"
    unfolding a by auto
  finally show ?case .
qed

lemma length_neighbours_loop: "length (neighbours_loop g r c offs) \<le> length offs"
proof (induction offs)
  case (Cons a offs)
  obtain i j where a: "a = (i, j)" by (cases a)
  show ?case using Cons unfolding a by simp
qed simp

lemma distinct_neighbours_loop: "distinct offs \<Longrightarrow> distinct (neighbours_loop g r c offs)"
proof (induction offs)
  case (Cons a offs)
  obtain i j where a: "a = (i, j)" by (cases a)
  have "(nat (int r + i), nat (int c + j)) \<notin> set (neighbours_loop g r c offs)"
    if "int r + i \<ge> 0" "int c + j \<ge> 0"
  proof
    assume "(nat (int r + i), nat (int c + j)) \<in> set (neighbours_loop g r c offs)"
    then obtain i' j' where "(i', j') \<in> set offs"
        "int (nat (int r + i)) = int r + i'" "int (nat (int c + j)) = int c + j'"
      unfolding set_neighbours_loop by auto
    then have "(i', j') \<in> set offs" "int r + i = int r + i'" "int c + j = int c + j'"
      using that by simp_all
    then show False using Cons.prems a by auto
  qed
  then show ?case using Cons unfolding a by auto
qed simp


lemma orthogonal_offsets:
  "orthogonal (r, c) q \<longleftrightarrow>
     (\<exists>(i, j) \<in> set [(- 1, 0), (1, 0), (0, - 1), (0, 1)]. int (fst q) = int r + i \<and> int (snd q) = int c + j)"
  by (cases q) (auto simp: orthogonal_def)

lemma diagonal_offsets:
  "diagonal (r, c) q \<longleftrightarrow>
     (\<exists>(i, j) \<in> set [(- 1, - 1), (1, - 1), (- 1, 1), (1, 1)]. int (fst q) = int r + i \<and> int (snd q) = int c + j)"
  by (cases q) (auto simp: diagonal_def)

lemma vh_neighbours_ok:
  assumes "cell_ok g"
  shows "\<exists>ns. get_vert_horz_neighbours g p = Inr ns \<and> distinct ns \<and> length ns \<le> 4 \<and>
           set ns = {q. in_grid g q \<and> \<not> is_obstacle (nodes g q) \<and> orthogonal p q}"
proof -
  obtain r c where p: "p = (r, c)" by (cases p)
  let ?offs = "[(- 1, 0), (1, 0), (0, - 1), (0, 1)] :: (int \<times> int) list"
  let ?ns = "neighbours_loop g r c ?offs"
  have e: "get_vert_horz_neighbours g p = Inr ?ns"
    using row_col_of_ok[OF assms, of p] p by (simp add: get_vert_horz_neighbours_def del: neighbours_loop.simps)
  have d: "distinct ?ns" by (rule distinct_neighbours_loop) simp
  have l: "length ?ns \<le> 4" using length_neighbours_loop[of g r c ?offs] by (simp del: neighbours_loop.simps)
  have s: "set ?ns = {q. in_grid g q \<and> \<not> is_obstacle (nodes g q) \<and> orthogonal p q}"
    unfolding set_neighbours_loop p orthogonal_offsets ..
  show ?thesis using e d l s by blast
qed

lemma diag_neighbours_ok:
  assumes "cell_ok g"
  shows "\<exists>ns. get_diag_neighbors g p = Inr ns \<and> distinct ns \<and> length ns \<le> 4 \<and>
           set ns = {q. in_grid g q \<and> \<not> is_obstacle (nodes g q) \<and> diagonal p q}"
proof -
  obtain r c where p: "p = (r, c)" by (cases p)
  let ?offs = "[(- 1, - 1), (1, - 1), (- 1, 1), (1, 1)] :: (int \<times> int) list"
  let ?ns = "neighbours_loop g r c ?offs"
  have e: "get_diag_neighbors g p = Inr ?ns"
    using row_col_of_ok[OF assms, of p] p by (simp add: get_diag_neighbors_def del: neighbours_loop.simps)
  have d: "distinct ?ns" by (rule distinct_neighbours_loop) simp
  have l: "length ?ns \<le> 4" using length_neighbours_loop[of g r c ?offs] by (simp del: neighbours_loop.simps)
  have s: "set ?ns = {q. in_grid g q \<and> \<not> is_obstacle (nodes g q) \<and> diagonal p q}"
    unfolding set_neighbours_loop p diagonal_offsets ..
  show ?thesis using e d l s by blast
qed

lemma nodes_update_node [simp]: "nodes (update_node g p nd) = (nodes g)(p := nd)"
  by (simp add: update_node_def)

lemma fields_update_node [simp]:
  "columns (update_node g p nd) = columns g" "rows (update_node g p nd) = rows g"
  "width (update_node g p nd) = width g" "height (update_node g p nd) = height g"
  "start (update_node g p nd) = start g" "target (update_node g p nd) = target g"
  "solved (update_node g p nd) = solved g"
  by (simp_all add: update_node_def)

lemma h_loop_fields:
  "columns (foldl (\<lambda>g' node. update_node g' node (set_h_cost (nodes g' node) (f node))) g ps) = columns g"
  "rows (foldl (\<lambda>g' node. update_node g' node (set_h_cost (nodes g' node) (f node))) g ps) = rows g"
  "width (foldl (\<lambda>g' node. update_node g' node (set_h_cost (nodes g' node) (f node))) g ps) = width g"
  "height (foldl (\<lambda>g' node. update_node g' node (set_h_cost (nodes g' node) (f node))) g ps) = height g"
  "start (foldl (\<lambda>g' node. update_node g' node (set_h_cost (nodes g' node) (f node))) g ps) = start g"
  "target (foldl (\<lambda>g' node. update_node g' node (set_h_cost (nodes g' node) (f node))) g ps) = target g"
  "solved (foldl (\<lambda>g' node. update_node g' node (set_h_cost (nodes g' node) (f node))) g ps) = solved g"
  by (induction ps arbitrary: g) simp_all

lemma h_loop_nodes:
  "nodes (foldl (\<lambda>g' node. update_node g' node (set_h_cost (nodes g' node) (f node))) g ps) p =
     (if p \<in> set ps then set_h_cost (nodes g p) (f p) else nodes g p)"
proof (induction ps arbitrary: g)
  case (Cons a ps)
  have "set_h_cost (set_h_cost nd x) x = set_h_cost nd x" for nd :: Node and x
    by (simp add: set_h_cost_def)
  then show ?case
    by (simp add: Cons.IH)
qed simp

lemma set_all_nodes: "set (all_nodes g) = {p. in_grid g p}"
  by (auto simp: all_nodes_def in_grid_def)


lemma calculate_all_h_costs_Some:
  assumes "target g = Some t"
  shows "\<exists>g1. calculate_all_h_costs g = (Inr (), g1) \<and>
           columns g1 = columns g \<and> rows g1 = rows g \<and> width g1 = width g \<and> height g1 = height g \<and>
           start g1 = start g \<and> target g1 = target g \<and> solved g1 = solved g \<and>
           (\<forall>p. nodes g1 p = (if in_grid g p then set_h_cost (nodes g p) (h_dist p t) else nodes g p))"
  using assms
  by (simp add: calculate_all_h_costs_def h_loop_fields h_loop_nodes set_all_nodes)

lemma MinPriorityQueue_init_Nil:
  "MinPriorityQueue_init [] = \<lparr>elements = [], size_q = 0, mapping = Map.empty\<rparr>"
  by (simp add: MinPriorityQueue_init_def build_min_heap_def)

lemma insert_q_empty:
  "insert_q (MinPriorityQueue_init []) k e =
     (Inr (), \<lparr>elements = [(k, e)], size_q = 1, mapping = [e \<mapsto> 0]\<rparr>)"
  unfolding MinPriorityQueue_init_Nil insert_q_def decrease_key_def
  by (simp add: decrease_key_loop.simps)

lemma set_h_cost_fields [simp]:
  "h_cost (set_h_cost nd h) = Some h" "g_cost (set_h_cost nd h) = g_cost nd"
  "prev (set_h_cost nd h) = prev nd" "state (set_h_cost nd h) = state nd"
  by (simp_all add: set_h_cost_def)

lemma relax_g_cost_fields [simp]:
  "h_cost (snd (relax_g_cost nd c)) = h_cost nd"
  "prev (snd (relax_g_cost nd c)) = prev nd"
  "state (snd (relax_g_cost nd c)) = state nd"
  by (simp_all add: relax_g_cost_def split: option.splits)

lemma relax_g_cost_g:
  "g_cost (snd (relax_g_cost nd c)) = Some (case g_cost nd of None \<Rightarrow> c | Some x \<Rightarrow> min x c)"
  by (simp add: relax_g_cost_def split: option.splits)

lemma search_init_spec:
  assumes "start g = Some st" "target g = Some t" "in_grid g st"
  shows "\<exists>s. search_init g = (Inr (), s) \<and> closed s = {} \<and>
     opened s = \<lparr>elements = [(h_dist st t + relaxed_zero (g_cost (nodes g st)), st)], size_q = 1,
                  mapping = [st \<mapsto> 0]\<rparr> \<and>
     columns (grid s) = columns g \<and> rows (grid s) = rows g \<and>
     width (grid s) = width g \<and> height (grid s) = height g \<and>
     start (grid s) = start g \<and> target (grid s) = target g \<and> solved (grid s) = solved g \<and>
     (\<forall>p. in_grid g p \<longrightarrow> h_cost (nodes (grid s) p) = Some (h_dist p t)) \<and>
     (\<forall>p. \<not> in_grid g p \<longrightarrow> h_cost (nodes (grid s) p) = h_cost (nodes g p)) \<and>
     g_cost (nodes (grid s) st) = Some (relaxed_zero (g_cost (nodes g st))) \<and>
     (\<forall>p. p \<noteq> st \<longrightarrow> g_cost (nodes (grid s) p) = g_cost (nodes g p)) \<and>
     (\<forall>p. prev (nodes (grid s) p) = prev (nodes g p) \<and> state (nodes (grid s) p) = state (nodes g p))"
proof -
  from calculate_all_h_costs_Some[OF assms(2)] obtain g1 where
    g1: "calculate_all_h_costs g = (Inr (), g1)"
        "columns g1 = columns g" "rows g1 = rows g" "width g1 = width g" "height g1 = height g"
        "start g1 = start g" "target g1 = target g" "solved g1 = solved g"
        "\<And>p. nodes g1 p = (if in_grid g p then set_h_cost (nodes g p) (h_dist p t) else nodes g p)"
    by blast
  let ?nd = "snd (relax_g_cost (nodes g1 st) 0)"
  let ?g2 = "update_node g1 st ?nd"
  have nd: "g_cost ?nd = Some (relaxed_zero (g_cost (nodes g st)))" "h_cost ?nd = Some (h_dist st t)"
      "prev ?nd = prev (nodes g st)" "state ?nd = state (nodes g st)"
    using assms(3) by (simp_all add: g1(9) relax_g_cost_g relaxed_zero_def)
  have f: "get_f_cost ?nd = Inr (h_dist st t + relaxed_zero (g_cost (nodes g st)))"
    using nd by (simp add: get_f_cost_def)
  let ?s = "\<lparr>grid = ?g2,
             opened = \<lparr>elements = [(h_dist st t + relaxed_zero (g_cost (nodes g st)), st)], size_q = 1,
                  mapping = [st \<mapsto> 0]\<rparr>, closed = {}\<rparr>"
  have "search_init g = (Inr (), ?s)"
    unfolding search_init_def by (simp add: g1(1,6) assms(1) Let_def f insert_q_empty)
  moreover have "\<forall>p. in_grid g p \<longrightarrow> h_cost (nodes (grid ?s) p) = Some (h_dist p t)"
    by (simp add: g1(9))
  moreover have "\<forall>p. \<not> in_grid g p \<longrightarrow> h_cost (nodes (grid ?s) p) = h_cost (nodes g p)"
    using assms(3) by (auto simp add: g1(9))
  moreover have "\<forall>p. p \<noteq> st \<longrightarrow> g_cost (nodes (grid ?s) p) = g_cost (nodes g p)"
    by (simp add: g1(9))
  moreover have "\<forall>p. prev (nodes (grid ?s) p) = prev (nodes g p) \<and> state (nodes (grid ?s) p) = state (nodes g p)"
    by (simp add: g1(9))
  ultimately show ?thesis
    using g1(2-8) nd(1) by (intro exI[of _ ?s]) simp
qed


inductive_cases prev_chain_NilE: "prev_chain g current []"

inductive_cases prev_chain_ConsE: "prev_chain g current (c # path)"

lemma add_to_solution_fields [simp]:
  "prev (add_to_solution nd) = prev nd" "state (add_to_solution nd) = SOLUTION"
  "g_cost (add_to_solution nd) = g_cost nd" "h_cost (add_to_solution nd) = h_cost nd"
  by (simp_all add: add_to_solution_def)

lemma mark_solution_Cons:
  "mark_solution g (c # path) = mark_solution (update_node g c (add_to_solution (nodes g c))) path"
  by (simp add: mark_solution_def)

lemma mark_solution_fields:
  "start (mark_solution g path) = start g" "target (mark_solution g path) = target g"
  "solved (mark_solution g path) = solved g"
  "prev (nodes (mark_solution g path) p) = prev (nodes g p)"
  "g_cost (nodes (mark_solution g path) p) = g_cost (nodes g p)"
  "state (nodes (mark_solution g path) p) = (if p \<in> set path then SOLUTION else state (nodes g p))"
  by (induction path arbitrary: g) (simp_all add: mark_solution_Cons, simp_all add: mark_solution_def)

lemma prev_chain_cong:
  "prev_chain g current path \<Longrightarrow> start g' = start g \<Longrightarrow>
   (\<And>p. prev (nodes g' p) = prev (nodes g p)) \<Longrightarrow> prev_chain g' current path"
proof (induction rule: prev_chain.induct)
  case (at_start current)
  then show ?case by (simp add: prev_chain.at_start)
next
  case (link current c path)
  have a: "prev_chain g' (prev (nodes g' c)) path"
    using link.IH link.prems by simp
  have b: "current \<noteq> start g'" using link.hyps(2) link.prems(1) by simp
  show ?case using link.hyps(1) b a by (rule prev_chain.link)
qed

lemma prev_chain_print_path_loop:
  "prev_chain g current path \<Longrightarrow> print_path_loop g current = Some (Inr (), mark_solution g path)"
proof (induction path arbitrary: g current)
  case Nil
  then have "current = start g" by (rule prev_chain_NilE)
  then show ?case by (subst print_path_loop.simps) (simp add: mark_solution_def)
next
  case (Cons c path)
  from Cons.prems have c: "current = Some c \<and> current \<noteq> start g \<and> prev_chain g (prev (nodes g c)) path"
    by (rule prev_chain_ConsE) simp
  then have c: "current = Some c" "current \<noteq> start g" "prev_chain g (prev (nodes g c)) path"
    by blast+
  let ?g1 = "update_node g c (add_to_solution (nodes g c))"
  have "prev_chain ?g1 (prev (nodes g c)) path"
    by (rule prev_chain_cong[OF c(3)]) simp_all
  then have "prev_chain ?g1 (prev (nodes ?g1 c)) path" by simp
  from Cons.IH[OF this] show ?case
    using c(1,2) by (subst print_path_loop.simps) (simp add: mark_solution_Cons)
qed

lemma print_path_loop_prev_chain_aux:
  "print_path_loop g current = Some y \<Longrightarrow>
   fst y = Inr () \<longrightarrow> (\<exists>path. prev_chain g current path \<and> snd y = mark_solution g path)"
proof (induct rule: print_path_loop.raw_induct[rotated 1, consumes 1])
  case (1 loop g current y)
  note IH = 1(1) and eq = 1(2)
  show ?case
  proof
    assume ok: "fst y = Inr ()"
    show "\<exists>path. prev_chain g current path \<and> snd y = mark_solution g path"
    proof (cases "current = start g")
      case True
      then have "y = (Inr (), g)" using eq by simp
      moreover have "prev_chain g current []" using True by (rule prev_chain.at_start)
      ultimately show ?thesis by (intro exI[of _ "[]"]) (simp add: mark_solution_def)
    next
      case False
      have "current \<noteq> None"
      proof
        assume "current = None"
        then have "y = (Inl AttributeError, g)" using eq False by simp
        then show False using ok by simp
      qed
      then obtain c where c: "current = Some c" by blast
      let ?g1 = "update_node g c (add_to_solution (nodes g c))"
      have "loop ?g1 (prev (nodes ?g1 c)) = Some y" using eq False c by simp
      from IH[OF this] ok obtain path where
        path: "prev_chain ?g1 (prev (nodes ?g1 c)) path" "snd y = mark_solution ?g1 path"
        by blast
      have "prev_chain g (prev (nodes ?g1 c)) path"
        by (rule prev_chain_cong[OF path(1)]) simp_all
      then have "prev_chain g (prev (nodes g c)) path" by simp
      with c False have "prev_chain g current (c # path)" by (rule prev_chain.link)
      then show ?thesis using path(2) by (intro exI[of _ "c # path"]) (simp add: mark_solution_Cons)
    qed
  qed
qed

lemma print_path_loop_prev_chain:
  "print_path_loop g current = Some (Inr (), g') \<Longrightarrow>
   \<exists>path. prev_chain g current path \<and> g' = mark_solution g path"
  using print_path_loop_prev_chain_aux[of g current "(Inr (), g')"] by simp

lemma prev_chain_unique:
  "prev_chain g current path \<Longrightarrow> prev_chain g current path' \<Longrightarrow> path = path'"
proof (induction arbitrary: path' rule: prev_chain.induct)
  case (at_start current)
  from at_start.prems at_start.hyps show ?case
    by (cases rule: prev_chain.cases) simp_all
next
  case (link current c path)
  from link.prems link.hyps(1,2) obtain p' where "path' = c # p'" "prev_chain g (prev (nodes g c)) p'"
    by (cases rule: prev_chain.cases) simp_all
  then show ?case using link.IH by simp
qed

lemma prev_chain_start_notin:
  "prev_chain g current path \<Longrightarrow> start g = Some st \<Longrightarrow> st \<notin> set path"
  by (induction rule: prev_chain.induct) auto

lemma prev_chain_suffix:
  "prev_chain g current path \<Longrightarrow> c \<in> set path \<Longrightarrow>
   \<exists>path'. prev_chain g (prev (nodes g c)) path' \<and> length path' < length path"
proof (induction rule: prev_chain.induct)
  case (link current d path)
  show ?case
  proof (cases "c = d")
    case True
    then show ?thesis using link.hyps(3) by auto
  next
    case False
    then have "c \<in> set path" using link.prems by simp
    from link.IH[OF this] show ?thesis by auto
  qed
qed simp

lemma prev_chain_target_notin:
  assumes "prev_chain g (prev (nodes g t)) path"
  shows "t \<notin> set path"
proof
  assume "t \<in> set path"
  from prev_chain_suffix[OF assms this] obtain path' where
    "prev_chain g (prev (nodes g t)) path'" "length path' < length path" by blast
  then show False using prev_chain_unique[OF assms] by auto
qed

lemma pq_mset_get_key:
  assumes "pq_inv q'" "mset (elements q') = add_mset (k, e) M"
  shows "get_key q' e = Inr k" "element_exists q' e"
proof -
  have w: "wf_q q'" using assms(1) by (simp add: pq_inv_def)
  have "(k, e) \<in># mset (elements q')" unfolding assms(2) by simp
  then have m: "(k, e) \<in> set (elements q')" by simp
  then show "get_key q' e = Inr k" using get_key_iff[OF w] by simp
  show "element_exists q' e" using element_exists_iff[OF w] m by force
qed

lemma relax_neighbour_spec:
  assumes inv: "pq_inv (opened s)"
    and gc: "g_cost (nodes (grid s) current) = Some gc"
    and h: "h_cost (nodes (grid s) node) = Some h"
    and key: "\<forall>k. get_key (opened s) node = Inr k \<longrightarrow>
               (\<exists>g0. g_cost (nodes (grid s) node) = Some g0 \<and> k = h + g0)"
  shows "(g_cost (nodes (grid s) node) = None \<or>
          (\<exists>g0. g_cost (nodes (grid s) node) = Some g0 \<and> gc + cost < g0) \<longrightarrow>
            (\<exists>s'. relax_neighbour vis current cost s node = (Inr (), s') \<and>
                  g_cost (nodes (grid s') node) = Some (gc + cost) \<and>
                  prev (nodes (grid s') node) = Some current \<and>
                  element_exists (opened s') node \<and>
                  get_key (opened s') node = Inr (h + (gc + cost)) \<and>
                  (element_exists (opened s) node \<longrightarrow>
                     decrease_key (opened s) node (h + (gc + cost)) = (Inr (), opened s') \<and>
                     state (nodes (grid s') node) = state (nodes (grid s) node)) \<and>
                  (\<not> element_exists (opened s) node \<longrightarrow>
                     insert_q (opened s) (h + (gc + cost)) node = (Inr (), opened s') \<and>
                     state (nodes (grid s') node) =
                       (if vis then state (make_open (nodes (grid s) node))
                        else state (nodes (grid s) node))))) \<and>
         (\<not> (g_cost (nodes (grid s) node) = None \<or>
             (\<exists>g0. g_cost (nodes (grid s) node) = Some g0 \<and> gc + cost < g0)) \<longrightarrow>
            relax_neighbour vis current cost s node = (Inr (), s))"
proof (intro conjI impI)
  assume "\<not> (g_cost (nodes (grid s) node) = None \<or>
             (\<exists>g0. g_cost (nodes (grid s) node) = Some g0 \<and> gc + cost < g0))"
  then show "relax_neighbour vis current cost s node = (Inr (), s)"
    by (auto simp: relax_neighbour_def gc relax_g_cost_def split: option.splits)
next
  assume imp: "g_cost (nodes (grid s) node) = None \<or>
          (\<exists>g0. g_cost (nodes (grid s) node) = Some g0 \<and> gc + cost < g0)"
  let ?nd = "(nodes (grid s) node)\<lparr>g_cost := Some (gc + cost)\<rparr>"
  let ?nd1 = "set_prev ?nd current"
  let ?s1 = "s\<lparr>grid := update_node (grid s) node ?nd1\<rparr>"
  let ?f = "h + (gc + cost)"
  have rel: "relax_g_cost (nodes (grid s) node) (gc + cost) = (True, ?nd)"
    using imp by (auto simp: relax_g_cost_def)
  have f: "get_f_cost (nodes (grid ?s1) node) = Inr ?f"
    using h by (simp add: get_f_cost_def set_prev_def)
  have w: "wf_q (opened s)" using inv by (simp add: pq_inv_def)
  show "\<exists>s'. relax_neighbour vis current cost s node = (Inr (), s') \<and>
                  g_cost (nodes (grid s') node) = Some (gc + cost) \<and>
                  prev (nodes (grid s') node) = Some current \<and>
                  element_exists (opened s') node \<and>
                  get_key (opened s') node = Inr (h + (gc + cost)) \<and>
                  (element_exists (opened s) node \<longrightarrow>
                     decrease_key (opened s) node (h + (gc + cost)) = (Inr (), opened s') \<and>
                     state (nodes (grid s') node) = state (nodes (grid s) node)) \<and>
                  (\<not> element_exists (opened s) node \<longrightarrow>
                     insert_q (opened s) (h + (gc + cost)) node = (Inr (), opened s') \<and>
                     state (nodes (grid s') node) =
                       (if vis then state (make_open (nodes (grid s) node))
                        else state (nodes (grid s) node)))"
  proof (cases "element_exists (opened s) node")
    case True
    then obtain k0 where k0: "(k0, node) \<in> set (elements (opened s))"
      using element_exists_iff[OF w] by auto
    then have gk: "get_key (opened s) node = Inr k0" using get_key_iff[OF w] by simp
    then obtain g0 where g0: "g_cost (nodes (grid s) node) = Some g0" "k0 = h + g0"
      using key by blast
    then have "?f \<le> k0" using imp by auto
    from decrease_key_spec[OF inv k0 this] obtain q' where
      q': "decrease_key (opened s) node ?f = (Inr (), q')" "pq_inv q'"
          "mset (elements q') = add_mset (?f, node) (mset (elements (opened s)) - {#(k0, node)#})"
      by blast
    let ?s' = "?s1\<lparr>opened := q'\<rparr>"
    have "relax_neighbour vis current cost s node = (Inr (), ?s')"
      unfolding relax_neighbour_def using True q'(1) f
      by (simp add: gc rel Let_def)
    then show ?thesis
      using True q'(1) pq_mset_get_key[OF q'(2,3)]
      by (intro exI[of _ ?s']) (simp add: set_prev_def)
  next
    case False
    then have "node \<notin> snd ` set (elements (opened s))"
      using element_exists_iff[OF w] by simp
    from insert_q_spec[OF inv this, of ?f] obtain q' where
      q': "insert_q (opened s) ?f node = (Inr (), q')" "pq_inv q'"
          "mset (elements q') = add_mset (?f, node) (mset (elements (opened s)))"
      by blast
    let ?s' = "?s1\<lparr>opened := q',
                     grid := (if vis then update_node (grid ?s1) node (make_open (nodes (grid ?s1) node))
                              else grid ?s1)\<rparr>"
    have "relax_neighbour vis current cost s node = (Inr (), ?s')"
      unfolding relax_neighbour_def using False q'(1) f
      by (simp add: gc rel Let_def)
    then show ?thesis
      using False q'(1) pq_mset_get_key[OF q'(2,3)]
      by (intro exI[of _ ?s']) (simp add: set_prev_def make_open_def)
  qed
qed

lemma setters_endpoints_distinct:
  "endpoints_distinct g \<Longrightarrow> endpoints_distinct (snd (set_start_node g n))"
  "endpoints_distinct g \<Longrightarrow> endpoints_distinct (snd (set_target_node g n))"
  by (auto simp: endpoints_distinct_def set_start_node_def set_target_node_def Let_def
           split: option.splits sum.splits)

lemma Grid_init_endpoints_distinct:
  "Grid_init w h cols rws = Inr g \<Longrightarrow> endpoints_distinct g"
proof -
  assume a: "Grid_init w h cols rws = Inr g"
  let ?g0 = "\<lparr>columns = cols, rows = rws, width = w, height = h,
                        nodes = (\<lambda>p. new_node), start = None, target = None, solved = False\<rparr>"
  from a obtain g1 where g1: "create_grid ?g0 = Inr g1"
    by (auto simp: Grid_init_def split: sum.splits)
  then have "endpoints_distinct g1"
    by (auto simp: create_grid_def endpoints_distinct_def split: if_splits)
  then have "endpoints_distinct (snd (set_target_node (snd (set_start_node g1 None)) None))"
    by (intro setters_endpoints_distinct)
  moreover have "g = (snd (set_target_node (snd (set_start_node g1 None)) None))\<lparr>solved := False\<rparr>"
    using a g1 by (auto simp: Grid_init_def split: sum.splits prod.splits)
  ultimately show ?thesis by (simp add: endpoints_distinct_def)
qed

lemma h_dist_self [simp]: "h_dist p p = 0"
  by (simp add: h_dist_def Let_def)

lemma close_fields [simp]:
  "prev (close nd) = prev nd" "g_cost (close nd) = g_cost nd" "h_cost (close nd) = h_cost nd"
  "state (close nd) \<noteq> SOLUTION"
  by (auto simp: close_def)

lemma extract_min_single:
  "extract_min \<lparr>elements = [(k, e)], size_q = 1, mapping = [e \<mapsto> 0]\<rparr> =
     (Inr e, \<lparr>elements = [], size_q = 0, mapping = Map.empty\<rparr>)"
  by (simp add: extract_min_def)

lemma trivial_run:
  assumes "start g = Some p" "target g = Some p" "in_grid g p"
    "g_cost (nodes g p) = None" "prev (nodes g p) = None"
  shows "\<exists>s. find_path_run vis g = Some (Inr (), s) \<and> solved (grid s) \<and>
           g_cost (nodes (grid s) p) = Some 0 \<and> closed s = {p} \<and>
           (\<forall>q. state (nodes (grid s) q) = SOLUTION \<longrightarrow> state (nodes g q) = SOLUTION) \<and>
           solve g vis = Some (Inl AttributeError, grid s)"
proof -
  from search_init_spec[OF assms(1,2,3)] obtain s0 where
    s0: "search_init g = (Inr (), s0)" "closed s0 = {}"
     "opened s0 = \<lparr>elements = [(h_dist p p + relaxed_zero (g_cost (nodes g p)), p)], size_q = 1,
                  mapping = [p \<mapsto> 0]\<rparr>"
     "start (grid s0) = start g" "target (grid s0) = target g"
     "g_cost (nodes (grid s0) p) = Some (relaxed_zero (g_cost (nodes g p)))"
     "\<forall>q. prev (nodes (grid s0) q) = prev (nodes g q) \<and> state (nodes (grid s0) q) = state (nodes g q)"
    by blast
  let ?q = "\<lparr>elements = [], size_q = 0, mapping = Map.empty\<rparr> :: pos MinPriorityQueue"
  let ?s = "finish_current vis p (s0\<lparr>opened := ?q, grid := (grid s0)\<lparr>solved := True\<rparr>\<rparr>)"
  have ex: "extract_min (opened s0) = (Inr p, ?q)"
    unfolding s0(3) by (rule extract_min_single)
  have loop: "find_path_loop vis s0 = Some (Inr (), ?s)"
    by (subst find_path_loop.simps) (simp add: ex s0(5) assms(2))
  then have run: "find_path_run vis g = Some (Inr (), ?s)"
    by (simp add: find_path_run_def s0(1))
  have g0: "g_cost (nodes (grid ?s) p) = Some 0"
    using s0(6) assms(4) by (simp add: finish_current_def relaxed_zero_def)
  have st: "\<forall>q. state (nodes (grid ?s) q) = SOLUTION \<longrightarrow> state (nodes g q) = SOLUTION"
    using s0(7) by (auto simp: finish_current_def)
  have fields: "solved (grid ?s)" "target (grid ?s) = Some p" "start (grid ?s) = Some p"
      "prev (nodes (grid ?s) p) = None" "closed ?s = {p}"
    using s0(2,4,5) spec[OF s0(7), of p] assms by (simp_all add: finish_current_def)
  have pp: "print_path (grid ?s) = Some (Inl AttributeError, grid ?s)"
    unfolding print_path_def using fields
    by (subst print_path_loop.simps) simp
  have fp: "(if vis then find_path g else find_path_nonvisual g) = Some (Inr (), grid ?s)"
    using run by (cases vis) (simp_all add: find_path_def find_path_nonvisual_def)
  have "solve g vis = Some (Inl AttributeError, grid ?s)"
    unfolding solve_def fp using assms(1,2) pp by simp
  then show ?thesis using run g0 st fields by blast
qed


section \<open>Properties of the search\<close>

lemma make_open_fields [simp]:
  "h_cost (make_open nd) = h_cost nd" "g_cost (make_open nd) = g_cost nd"
  "prev (make_open nd) = prev nd"
  "state (make_open nd) = (if state nd \<noteq> START \<and> state nd \<noteq> TARGET then OPENED else state nd)"
  by (simp_all add: make_open_def)

lemma set_prev_fields [simp]:
  "h_cost (set_prev nd p) = h_cost nd" "g_cost (set_prev nd p) = g_cost nd"
  "prev (set_prev nd p) = Some p" "state (set_prev nd p) = state nd"
  by (simp_all add: set_prev_def)

lemma get_f_cost_make_open [simp]: "get_f_cost (make_open nd) = get_f_cost nd"
  by (simp add: get_f_cost_def split: option.splits)

lemma get_f_cost_set_prev [simp]: "get_f_cost (set_prev nd p) = get_f_cost nd"
  by (simp add: get_f_cost_def split: option.splits)

















lemma relaxed_in_grid: "relaxed vis cur gc M s s' \<Longrightarrow> in_grid (grid s') = in_grid (grid s)"
  by (rule ext) (simp add: in_grid_def relaxed_def)









lemma close_costs [simp]:
  "h_cost (close nd) = h_cost nd" "g_cost (close nd) = g_cost nd" "prev (close nd) = prev nd"
  "get_f_cost (close nd) = get_f_cost nd"
  by (simp_all add: close_def get_f_cost_def split: option.splits)

lemma finish_current_fields [simp]:
  "columns (grid (finish_current vis cur s)) = columns (grid s)"
  "rows (grid (finish_current vis cur s)) = rows (grid s)"
  "width (grid (finish_current vis cur s)) = width (grid s)"
  "height (grid (finish_current vis cur s)) = height (grid s)"
  "start (grid (finish_current vis cur s)) = start (grid s)"
  "target (grid (finish_current vis cur s)) = target (grid s)"
  "solved (grid (finish_current vis cur s)) = solved (grid s)"
  "opened (finish_current vis cur s) = opened s"
  "closed (finish_current vis cur s) = insert cur (closed s)"
  by (simp_all add: finish_current_def)

lemma finish_current_nodes:
  "nodes (grid (finish_current vis cur s)) v =
     (if vis \<and> v = cur then close (nodes (grid s) v) else nodes (grid s) v)"
  by (simp add: finish_current_def)

lemma finish_current_costs [simp]:
  "h_cost (nodes (grid (finish_current vis cur s)) v) = h_cost (nodes (grid s) v)"
  "g_cost (nodes (grid (finish_current vis cur s)) v) = g_cost (nodes (grid s) v)"
  "prev (nodes (grid (finish_current vis cur s)) v) = prev (nodes (grid s) v)"
  "get_f_cost (nodes (grid (finish_current vis cur s)) v) = get_f_cost (nodes (grid s) v)"
  by (simp_all add: finish_current_nodes)




lemma nbr_cost_Some:
  "nbr_cost g u v = Some c \<longleftrightarrow>
     in_grid g v \<and> \<not> is_obstacle (nodes g v) \<and>
     (orthogonal u v \<and> c = 10 \<or> diagonal u v \<and> c = 14)"
  by (auto simp: nbr_cost_def VERT_HORZ_COST_def DIAG_COST_def orthogonal_def diagonal_def)
















lemma expand_det:
  "expand vis s cur = (Inr (), s2) \<Longrightarrow> expand vis s cur = (Inr (), s3) \<Longrightarrow> s3 = s2"
  by simp








lemma path_cost_in_grid: "path_cost g st u x \<Longrightarrow> in_grid g st \<Longrightarrow> in_grid g u"
  by (induction rule: path_cost.induct) (auto simp: nbr_cost_Some)























section \<open>Claims about the grid and the search\<close>

text \<open>
  C10.  On a grid whose cells have a positive size, \<open>get_vert_horz_neighbours\<close> returns
  without raising, for every node, exactly the nodes of the grid that are orthogonally
  adjacent to it and are not obstacles, and \<open>get_diag_neighbors\<close> exactly the diagonally
  adjacent ones; each list has at most four nodes and no node twice.  Every node returned is
  adjacent, so a row or column index of \<open>-1\<close> never selects the opposite edge.
\<close>

theorem neighbours_exact:
  assumes "cell_ok g"
  shows "(\<exists>ns. get_vert_horz_neighbours g p = Inr ns \<and> distinct ns \<and> length ns \<le> 4 \<and>
            set ns = {q. in_grid g q \<and> \<not> is_obstacle (nodes g q) \<and> orthogonal p q}) \<and>
         (\<exists>ns. get_diag_neighbors g p = Inr ns \<and> distinct ns \<and> length ns \<le> 4 \<and>
            set ns = {q. in_grid g q \<and> \<not> is_obstacle (nodes g q) \<and> diagonal p q})"
  using vh_neighbours_ok[OF assms, of p] diag_neighbours_ok[OF assms, of p] by blast

theorem neighbours_exact_witness:
  "Grid_init 50 100 5 10 = Inr grid_5x10 \<and> cell_ok grid_5x10 \<and>
   get_vert_horz_neighbours grid_5x10 (0, 0) = Inr [(1, 0), (0, 1)] \<and>
   get_diag_neighbors grid_5x10 (0, 0) = Inr [(1, 1)] \<and>
   (\<exists>ns. get_vert_horz_neighbours grid_5x10 (0, 0) = Inr ns \<and> distinct ns \<and> length ns \<le> 4 \<and>
      set ns = {q. in_grid grid_5x10 q \<and> \<not> is_obstacle (nodes grid_5x10 q) \<and> orthogonal (0, 0) q}) \<and>
   (\<exists>ns. get_diag_neighbors grid_5x10 (0, 0) = Inr ns \<and> distinct ns \<and> length ns \<le> 4 \<and>
      set ns = {q. in_grid grid_5x10 q \<and> \<not> is_obstacle (nodes grid_5x10 q) \<and> diagonal (0, 0) q})"
proof -
  have i: "isl (Grid_init 50 100 5 10) = False" by code_simp
  have b: "Grid_init 50 100 5 10 = Inr grid_5x10"
    using i unfolding grid_5x10_def by (cases "Grid_init 50 100 5 10") simp_all
  have c: "cell_ok grid_5x10" by code_simp
  have v: "get_vert_horz_neighbours grid_5x10 (0, 0) = Inr [(1, 0), (0, 1)]" by code_simp
  have d: "get_diag_neighbors grid_5x10 (0, 0) = Inr [(1, 1)]" by code_simp
  show ?thesis using b c v d neighbours_exact[OF c, of "(0, 0)"] by blast
qed








end
